theory Spec2Isabelle
  imports Main
begin

section \<open>The ESET-VM2 assembler of \<open>res/compiler.py\<close>\<close>

text \<open>
  The development follows the three classes of the source: \<open>Lexer\<close>, \<open>Parser\<close>
  and \<open>Assembler\<close>, and the driver \<open>main\<close>. Python exceptions are values of the
  datatype \<open>exn\<close>; a method that may raise returns \<open>exn + state\<close>. Python
  dictionaries are association lists in insertion order. Characters are the code
  points below 256; the source file is the list of the lines its handle yields.
\<close>

subsection \<open>Python built-ins used by the source\<close>

datatype exn =
    ParserError string
  | AssemblerError string
  | IndexError
  | ValueError
  | TypeError
  | KeyError
  | StructError
  | NotImplementedError

text \<open>\<open>str.isspace\<close> on the code points below 256 (the separators of \<open>str.split()\<close>
  and the class \<open>\s\<close> of \<open>re\<close>).\<close>

definition is_space :: "char \<Rightarrow> bool" where
  "is_space c = ((of_char c :: nat) \<in> set [9, 10, 11, 12, 13, 28, 29, 30, 31, 32, 133, 160])"

definition is_digit :: "char \<Rightarrow> bool" where
  "is_digit c = (48 \<le> (of_char c :: nat) \<and> (of_char c :: nat) \<le> 57)"

text \<open>\<open>s.split()\<close>: the maximal runs of non-space characters; \<open>cur\<close> is the run
  being read.\<close>

fun split_ws :: "string \<Rightarrow> string \<Rightarrow> string list" where
  "split_ws cur [] = (if cur = [] then [] else [cur])"
| "split_ws cur (c # cs) =
     (if is_space c then (if cur = [] then split_ws [] cs else cur # split_ws [] cs)
      else split_ws (cur @ [c]) cs)"

text \<open>\<open>s.split(sep)\<close> for a one-character separator: empty pieces are kept.\<close>

fun split_on :: "char \<Rightarrow> string \<Rightarrow> string \<Rightarrow> string list" where
  "split_on sep cur [] = [cur]"
| "split_on sep cur (c # cs) =
     (if c = sep then cur # split_on sep [] cs else split_on sep (cur @ [c]) cs)"

definition strip :: "string \<Rightarrow> string" where
  "strip s = rev (dropWhile is_space (rev (dropWhile is_space s)))"

text \<open>\<open>" ".join(tokens)\<close>.\<close>

fun join_sp :: "string list \<Rightarrow> string" where
  "join_sp [] = []"
| "join_sp [t] = t"
| "join_sp (t # u # ts) = t @ CHR '' '' # join_sp (u # ts)"

text \<open>The value of a digit of \<open>int(s, base)\<close>: \<open>0-9\<close>, \<open>a-z\<close>, \<open>A-Z\<close>.\<close>

definition digit_val :: "char \<Rightarrow> nat option" where
  "digit_val c =
     (let n = (of_char c :: nat) in
      if 48 \<le> n \<and> n \<le> 57 then Some (n - 48)
      else if 97 \<le> n \<and> n \<le> 122 then Some (n - 87)
      else if 65 \<le> n \<and> n \<le> 90 then Some (n - 55)
      else None)"

text \<open>The digit scan of \<open>int\<close>: digits below the base, single underscores between
  digits. \<open>pu\<close> says that the previous character was an underscore.\<close>

fun digits_loop :: "nat \<Rightarrow> bool \<Rightarrow> nat \<Rightarrow> string \<Rightarrow> nat option" where
  "digits_loop b pu acc [] = (if pu then None else Some acc)"
| "digits_loop b pu acc (c # cs) =
     (if c = CHR ''_'' then (if pu then None else digits_loop b True acc cs)
      else case digit_val c of
             None \<Rightarrow> None
           | Some d \<Rightarrow> if d < b then digits_loop b False (acc * b + d) cs else None)"

definition has_prefix :: "string \<Rightarrow> char \<Rightarrow> char \<Rightarrow> bool" where
  "has_prefix s lo up =
     (case s of c0 # c1 # _ \<Rightarrow> c0 = CHR ''0'' \<and> (c1 = lo \<or> c1 = up) | _ \<Rightarrow> False)"

text \<open>
  \<open>int(s, base)\<close> for \<open>base\<close> 0, 2, 8, 10 or 16; \<open>None\<close> is \<open>ValueError\<close>. White
  space around the literal is dropped, a sign is read, with base 0 the prefix
  \<open>0x\<close>, \<open>0o\<close> or \<open>0b\<close> chooses the base, and a decimal literal with a leading zero
  must be zero; with an explicit base its own prefix is optional; one underscore may
  follow the prefix. A decimal literal of more than 4300 digits, counted without the
  underscores, is refused with \<open>ValueError\<close> (the default of
  \<open>sys.int_max_str_digits\<close>); the bases 2, 8 and 16 have no such limit.
\<close>

definition py_int :: "nat \<Rightarrow> string \<Rightarrow> int option" where
  "py_int base s =
     (let s1 = strip s;
          neg = (s1 \<noteq> [] \<and> hd s1 = CHR ''-'');
          s2 = (if s1 \<noteq> [] \<and> (hd s1 = CHR ''+'' \<or> hd s1 = CHR ''-'') then tl s1 else s1);
          b = (if base = 0
               then (if has_prefix s2 (CHR ''x'') (CHR ''X'') then 16
                     else if has_prefix s2 (CHR ''o'') (CHR ''O'') then 8
                     else if has_prefix s2 (CHR ''b'') (CHR ''B'') then 2
                     else 10)
               else base);
          nz_err = (base = 0 \<and> b = 10 \<and> s2 \<noteq> [] \<and> hd s2 = CHR ''0'');
          pre = ((b = 16 \<and> has_prefix s2 (CHR ''x'') (CHR ''X''))
                 \<or> (b = 8 \<and> has_prefix s2 (CHR ''o'') (CHR ''O''))
                 \<or> (b = 2 \<and> has_prefix s2 (CHR ''b'') (CHR ''B'')));
          s3 = (if pre then drop 2 s2 else s2);
          s4 = (if pre \<and> s3 \<noteq> [] \<and> hd s3 = CHR ''_'' then tl s3 else s3)
      in if s4 = [] \<or> hd s4 = CHR ''_'' then None
         else if b = 10 \<and> 4300 < length (filter (\<lambda>c. c \<noteq> CHR ''_'') s4) then None
         else case digits_loop b False 0 s4 of
                None \<Rightarrow> None
              | Some n \<Rightarrow> if nz_err \<and> n \<noteq> 0 then None
                          else Some (if neg then - int n else int n))"

text \<open>The binary digits of a natural number, most significant first.\<close>

fun bin_digits :: "nat \<Rightarrow> string" where
  "bin_digits n =
     (if n < 2 then [if n = 0 then CHR ''0'' else CHR ''1'']
      else bin_digits (n div 2) @ [if n mod 2 = 0 then CHR ''0'' else CHR ''1''])"

declare bin_digits.simps [simp del]

definition zero_pad :: "nat \<Rightarrow> string \<Rightarrow> string" where
  "zero_pad w s = replicate (w - length s) (CHR ''0'') @ s"

text \<open>\<open>"{0:0wb}".format(v)\<close>: at least \<open>w\<close> characters, the sign of a negative value
  first and counted in the width.\<close>

definition format_b :: "nat \<Rightarrow> int \<Rightarrow> string" where
  "format_b w v =
     (if v < 0 then CHR ''-'' # zero_pad (w - 1) (bin_digits (nat (- v)))
      else zero_pad w (bin_digits (nat v)))"

fun dec_digits :: "nat \<Rightarrow> string" where
  "dec_digits n =
     (if n < 10 then [char_of (48 + n)]
      else dec_digits (n div 10) @ [char_of (48 + n mod 10)])"

declare dec_digits.simps [simp del]

text \<open>The conversion \<open>%d\<close>.\<close>

definition format_d :: "int \<Rightarrow> string" where
  "format_d v = (if v < 0 then CHR ''-'' # dec_digits (nat (- v)) else dec_digits (nat v))"

text \<open>\<open>struct.pack("I", v)\<close> and \<open>struct.pack("B", v)\<close>: \<open>struct.error\<close> out of
  range. The format \<open>I\<close> has the byte order of the host, taken little-endian here.\<close>

definition pack_I :: "int \<Rightarrow> exn + nat list" where
  "pack_I v =
     (if 0 \<le> v \<and> v < 4294967296
      then Inr [nat (v mod 256), nat (v div 256 mod 256), nat (v div 65536 mod 256),
                nat (v div 16777216 mod 256)]
      else Inl StructError)"

definition pack_B :: "int \<Rightarrow> exn + nat list" where
  "pack_B v = (if 0 \<le> v \<and> v \<le> 255 then Inr [nat v] else Inl StructError)"

text \<open>\<open>d[k] = v\<close> on a dictionary: the value of a present key is replaced in place, a
  new key goes to the end.\<close>

fun dict_set :: "('k \<times> 'v) list \<Rightarrow> 'k \<Rightarrow> 'v \<Rightarrow> ('k \<times> 'v) list" where
  "dict_set [] k v = [(k, v)]"
| "dict_set ((k', v') # d) k v = (if k' = k then (k, v) # d else (k', v') # dict_set d k v)"

subsection \<open>The tables of the class \<open>Assembler\<close>\<close>

text \<open>\<open>Assembler.Opcodes\<close>: mnemonic, opcode bits, argument kinds.\<close>

definition Opcodes :: "(string \<times> string \<times> string) list" where
  "Opcodes =
     [(''mov'', ''000'', ''RR''),
      (''loadConst'', ''001'', ''CR''),
      (''add'', ''010001'', ''RRR''),
      (''sub'', ''010010'', ''RRR''),
      (''div'', ''010011'', ''RRR''),
      (''mod'', ''010100'', ''RRR''),
      (''mul'', ''010101'', ''RRR''),
      (''compare'', ''01100'', ''RRR''),
      (''jump'', ''01101'', ''L''),
      (''jumpEqual'', ''01110'', ''LRR''),
      (''read'', ''10000'', ''RRRR''),
      (''write'', ''10001'', ''RRR''),
      (''consoleRead'', ''10010'', ''R''),
      (''consoleWrite'', ''10011'', ''R''),
      (''createThread'', ''10100'', ''LR''),
      (''joinThread'', ''10101'', ''R''),
      (''hlt'', ''10110'', ''''),
      (''sleep'', ''10111'', ''R''),
      (''call'', ''1100'', ''L''),
      (''ret'', ''1101'', ''''),
      (''lock'', ''1110'', ''R''),
      (''unlock'', ''1111'', ''R'')]"

definition DataAccessTypes :: "(string \<times> string) list" where
  "DataAccessTypes =
     [(''byte'', ''00''), (''word'', ''01''), (''dword'', ''10''), (''qword'', ''11'')]"

subsection \<open>The parsed program\<close>

text \<open>An argument of an instruction: the pair \<open>[register_id, ref]\<close> of a register,
  or the string of a constant or a label, kept as written.\<close>

datatype argument = RegArg nat "string option" | StrArg string

type_synonym instruction = "string \<times> argument list"

datatype ParseMode = Data | Code

record parser =
  parse_mode :: "ParseMode option"
  data_size :: "int option"
  data_labels :: "(string \<times> nat) list"
  data_section :: "int list"
  code_labels :: "(string \<times> nat) list"
  code_section :: "instruction list"
  last_parsed_line :: string
  last_parsed_line_no :: int

subsection \<open>Lexer\<close>

text \<open>\<open>line.split("#", 2)[0].split()\<close>.\<close>

definition tokenize :: "string \<Rightarrow> string list" where
  "tokenize line = split_ws [] (hd (split_on (CHR ''#'') [] line))"

text \<open>\<open>Lexer.analyse\<close>: the lines with a token, numbered from 1; \<open>n\<close> is the count of
  lines read before.\<close>

fun lexer_analyse :: "nat \<Rightarrow> string list \<Rightarrow> (int \<times> string \<times> string list) list" where
  "lexer_analyse n [] = []"
| "lexer_analyse n (line # rest) =
     (let tokens = tokenize line in
      if length tokens = 0 then lexer_analyse (Suc n) rest
      else (int n + 1, line, tokens) # lexer_analyse (Suc n) rest)"

subsection \<open>Parser\<close>

definition parser_init :: parser where
  "parser_init =
     \<lparr>parse_mode = None, data_size = None, data_labels = [], data_section = [],
      code_labels = [], code_section = [], last_parsed_line = [],
      last_parsed_line_no = - 1\<rparr>"

text \<open>\<open>Parser.__parse_section\<close>. The tokens of a line are never empty.\<close>

definition parse_section :: "parser \<Rightarrow> string list \<Rightarrow> exn + parser" where
  "parse_section p tokens =
     (if hd tokens = ''.dataSize'' then
        (if data_size p \<noteq> None then Inl (ParserError ''Double data size spotted'')
         else if length tokens < 2 then Inl IndexError
         else case py_int 10 (tokens ! 1) of
                None \<Rightarrow> Inl ValueError
              | Some n \<Rightarrow> Inr (p\<lparr>data_size := Some n\<rparr>))
      else if hd tokens = ''.code'' then Inr (p\<lparr>parse_mode := Some Code\<rparr>)
      else if hd tokens = ''.data'' then Inr (p\<lparr>parse_mode := Some Data\<rparr>)
      else Inl (ParserError ''Bad token''))"

text \<open>\<open>Parser.__parse_label\<close>.\<close>

definition parse_label :: "parser \<Rightarrow> string list \<Rightarrow> exn + parser" where
  "parse_label p tokens =
     (let label = butlast (hd tokens) in
      if parse_mode p = Some Code then
        (if map_of (code_labels p) label \<noteq> None then Inl (ParserError ''Duplicated label'')
         else Inr (p\<lparr>code_labels := dict_set (code_labels p) label (length (code_section p))\<rparr>))
      else if parse_mode p = Some Data then
        (if map_of (data_labels p) label \<noteq> None then Inl (ParserError ''Duplicated label'')
         else Inr (p\<lparr>data_labels := dict_set (data_labels p) label (length (data_section p))\<rparr>))
      else Inl (ParserError ''Bad label''))"

text \<open>\<open>Parser.__translate_argument_tokens\<close>. The joined string has single blanks
  between the tokens and no other white space, so that \<open>re.split(r"\s*,\s*", ...)\<close>
  yields the pieces between the commas without the white space at their ends.\<close>

definition translate_argument_tokens :: "string list \<Rightarrow> string list" where
  "translate_argument_tokens tokens =
     (if length tokens = 0 then []
      else map strip (split_on (CHR '','') [] (join_sp tokens)))"

text \<open>\<open>re.match\<close> with \<open>r(?P<id>[0-9]+)\<close>: the group \<open>id\<close> when the string starts
  with \<open>r\<close> and a digit; what follows the digits is not looked at.\<close>

definition match_register_val :: "string \<Rightarrow> string option" where
  "match_register_val s =
     (case s of
        [] \<Rightarrow> None
      | c # rest \<Rightarrow>
          if c = CHR ''r'' \<and> takeWhile is_digit rest \<noteq> [] then Some (takeWhile is_digit rest)
          else None)"

text \<open>\<open>re.match\<close> with \<open>(?P<ref>byte|word|dword|qword)\s*\[\s*r(?P<id>[0-9]+)\s*\]\<close>:
  the groups \<open>id\<close> and \<open>ref\<close>. No width is a prefix of another, and every
  repetition is followed by a character outside its class, so the match is the
  greedy one.\<close>

definition match_register_ref :: "string \<Rightarrow> (string \<times> string) option" where
  "match_register_ref s =
     (case filter (\<lambda>w. take (length w) s = w) (map fst DataAccessTypes) of
        [] \<Rightarrow> None
      | w # _ \<Rightarrow>
          (case dropWhile is_space (drop (length w) s) of
             [] \<Rightarrow> None
           | c # r1 \<Rightarrow>
               if c \<noteq> CHR ''['' then None
               else case match_register_val (dropWhile is_space r1) of
                      None \<Rightarrow> None
                    | Some ds \<Rightarrow>
                        (case dropWhile is_space
                                (drop (Suc (length ds)) (dropWhile is_space r1)) of
                           [] \<Rightarrow> None
                         | c2 # _ \<Rightarrow> if c2 = CHR '']'' then Some (ds, w) else None)))"

text \<open>The two patterns in the order of the source; the result is \<open>groups["id"]\<close>
  and \<open>groups.get("ref")\<close>.\<close>

definition match_register :: "string \<Rightarrow> (string \<times> string option) option" where
  "match_register s =
     (case match_register_val s of
        Some ds \<Rightarrow> Some (ds, None)
      | None \<Rightarrow>
          (case match_register_ref s of
             Some (ds, w) \<Rightarrow> Some (ds, Some w)
           | None \<Rightarrow> None))"

text \<open>The loop of \<open>Parser.__parse_code\<close> over \<open>zip(opcode.args, argument_data)\<close>;
  \<open>instruction\<close> holds the arguments appended so far.\<close>

fun parse_arguments :: "argument list \<Rightarrow> string \<Rightarrow> string list \<Rightarrow> exn + argument list" where
  "parse_arguments instruction (argument_type # kinds) (argument_data # rest) =
     (if argument_type = CHR ''R'' then
        (case match_register argument_data of
           None \<Rightarrow> Inl (ParserError (''Bad register argument type ['' @ argument_data @ '']''))
         | Some (ds, ref) \<Rightarrow>
             (case py_int 10 ds of
                None \<Rightarrow> Inl ValueError
              | Some register_id \<Rightarrow>
                  if register_id > 16
                  then Inl (ParserError ''Bad register argument type (too big)'')
                  else parse_arguments (instruction @ [RegArg (nat register_id) ref]) kinds rest))
      else if argument_type = CHR ''C'' then
        parse_arguments (instruction @ [StrArg argument_data]) kinds rest
      else if argument_type = CHR ''L'' then
        parse_arguments (instruction @ [StrArg argument_data]) kinds rest
      else Inl NotImplementedError)"
| "parse_arguments instruction _ _ = Inr instruction"

text \<open>\<open>Parser.__parse_code\<close>.\<close>

definition parse_code :: "parser \<Rightarrow> string list \<Rightarrow> exn + parser" where
  "parse_code p tokens =
     (let opcode_name = hd tokens in
      case map_of Opcodes opcode_name of
        None \<Rightarrow> Inl (ParserError (''Bad opcode ['' @ opcode_name @ '']''))
      | Some (code, args) \<Rightarrow>
          (let argument_data = translate_argument_tokens (tl tokens) in
           if length argument_data \<noteq> length args
           then Inl (ParserError ''Bad opcode argument count'')
           else case parse_arguments [] args argument_data of
                  Inl e \<Rightarrow> Inl e
                | Inr arguments \<Rightarrow>
                    Inr (p\<lparr>code_section := code_section p @ [(opcode_name, arguments)]\<rparr>)))"

text \<open>\<open>Parser.__parse_data\<close>: \<open>int(entry, 16)\<close> for every token, bounded above.\<close>

fun parse_data :: "parser \<Rightarrow> string list \<Rightarrow> exn + parser" where
  "parse_data p [] = Inr p"
| "parse_data p (entry # rest) =
     (case py_int 16 entry of
        None \<Rightarrow> Inl ValueError
      | Some v \<Rightarrow>
          if v > 255 then Inl (ParserError ''Bad value in line'')
          else parse_data (p\<lparr>data_section := data_section p @ [v]\<rparr>) rest)"

text \<open>The body of the loop of \<open>Parser.analyse\<close>: the classification of a line.\<close>

definition parse_line :: "parser \<Rightarrow> string list \<Rightarrow> exn + parser" where
  "parse_line p tokens =
     (if take 1 (hd tokens) = ''.'' then parse_section p tokens
      else if length tokens = 1 \<and> hd tokens \<noteq> [] \<and> last (hd tokens) = CHR '':''
        then parse_label p tokens
      else if parse_mode p = Some Code then parse_code p tokens
      else if parse_mode p = Some Data then parse_data p tokens
      else Inl (ParserError ''Bad token''))"

text \<open>The loop of \<open>Parser.analyse\<close>. The parser is returned with the exception: the
  driver reads \<open>last_parsed_line_no\<close> from it. Of a line that raises, only the two
  \<open>last_parsed\<close> fields are kept.\<close>

fun analyse_loop ::
  "parser \<Rightarrow> (int \<times> string \<times> string list) list \<Rightarrow> exn option \<times> parser" where
  "analyse_loop p [] = (None, p)"
| "analyse_loop p ((line_no, line, tokens) # rest) =
     (let p' = p\<lparr>last_parsed_line_no := line_no, last_parsed_line := line\<rparr> in
      case parse_line p' tokens of
        Inl e \<Rightarrow> (Some e, p')
      | Inr p'' \<Rightarrow> analyse_loop p'' rest)"

text \<open>\<open>Parser.analyse\<close> on a file of the given lines: the fields are reset, the two
  \<open>last_parsed\<close> fields keep the values of the constructor.\<close>

definition analyse :: "string list \<Rightarrow> exn option \<times> parser" where
  "analyse lines = analyse_loop parser_init (lexer_analyse 0 lines)"

subsection \<open>Assembler\<close>

record assembler =
  bytecode :: string
  offsets_list :: "nat list"
  offset_patches :: "(nat \<times> nat) list"

definition assembler_init :: assembler where
  "assembler_init = \<lparr>bytecode = [], offsets_list = [], offset_patches = []\<rparr>"

text \<open>\<open>Assembler.__append_bits\<close>: one list element for every character.\<close>

definition append_bits :: "assembler \<Rightarrow> string \<Rightarrow> assembler" where
  "append_bits a bits = a\<lparr>bytecode := bytecode a @ bits\<rparr>"

text \<open>\<open>Assembler.__assemble_register\<close>. A reference type that is \<open>None\<close> or empty is
  false. On a string (not a pair, which the parser never stores for the kind \<open>R\<close>) the
  unpacking raises unless the string has two characters, and then the second one is
  not a key of the table.\<close>

definition assemble_register :: "assembler \<Rightarrow> argument \<Rightarrow> exn + assembler" where
  "assemble_register a argument_data =
     (case argument_data of
        StrArg s \<Rightarrow> if length s = 2 then Inl KeyError else Inl ValueError
      | RegArg register_id reference_type \<Rightarrow>
          (if reference_type \<noteq> None \<and> reference_type \<noteq> Some [] then
             (case map_of DataAccessTypes (the reference_type) of
                None \<Rightarrow> Inl KeyError
              | Some width \<Rightarrow>
                  Inr (append_bits a
                         (''1'' @ rev width @ rev (format_b 4 (int register_id)))))
           else Inr (append_bits a (''0'' @ rev (format_b 4 (int register_id))))))"

text \<open>\<open>Assembler.__assemble_constant\<close>.\<close>

definition assemble_constant :: "assembler \<Rightarrow> argument \<Rightarrow> exn + assembler" where
  "assemble_constant a argument_data =
     (case argument_data of
        RegArg _ _ \<Rightarrow> Inl TypeError
      | StrArg s \<Rightarrow>
          (case py_int 0 s of
             None \<Rightarrow> Inl ValueError
           | Some v \<Rightarrow> Inr (append_bits a (rev (format_b 64 v)))))"

text \<open>\<open>Assembler.__assemble_label\<close>.\<close>

definition assemble_label :: "parser \<Rightarrow> assembler \<Rightarrow> argument \<Rightarrow> exn + assembler" where
  "assemble_label p a argument_data =
     (case argument_data of
        RegArg _ _ \<Rightarrow> Inl TypeError
      | StrArg s \<Rightarrow>
          (case map_of (code_labels p) s of
             None \<Rightarrow> Inl (AssemblerError (''Undefined code label '' @ s))
           | Some offset \<Rightarrow>
               if offset < length (offsets_list a)
               then Inr (append_bits a (rev (format_b 32 (int (offsets_list a ! offset)))))
               else Inr (append_bits
                           (a\<lparr>offset_patches :=
                                dict_set (offset_patches a) (length (bytecode a)) offset\<rparr>)
                           (rev (format_b 32 0)))))"

text \<open>\<open>Assembler.__apply_patches\<close>: the inner loop stores the bits one by one, and a
  store past the end of the list raises.\<close>

fun store_bits :: "string \<Rightarrow> nat \<Rightarrow> string \<Rightarrow> exn + string" where
  "store_bits bc position [] = Inr bc"
| "store_bits bc position (b # patched) =
     (if position < length bc then store_bits (bc[position := b]) (Suc position) patched
      else Inl IndexError)"

fun apply_patches_loop :: "assembler \<Rightarrow> (nat \<times> nat) list \<Rightarrow> exn + assembler" where
  "apply_patches_loop a [] = Inr a"
| "apply_patches_loop a ((position, offset) # rest) =
     (if offset < length (offsets_list a) then
        (case store_bits (bytecode a) position
                (rev (format_b 32 (int (offsets_list a ! offset)))) of
           Inl e \<Rightarrow> Inl e
         | Inr bc \<Rightarrow> apply_patches_loop (a\<lparr>bytecode := bc\<rparr>) rest)
      else Inl IndexError)"

definition apply_patches :: "assembler \<Rightarrow> exn + assembler" where
  "apply_patches a = apply_patches_loop a (offset_patches a)"

text \<open>The inner loop of \<open>Assembler.build\<close> over \<open>zip(opcode.args, instruction[1:])\<close>.\<close>

fun assemble_arguments ::
  "parser \<Rightarrow> assembler \<Rightarrow> string \<Rightarrow> argument list \<Rightarrow> exn + assembler" where
  "assemble_arguments p a (argument_type # kinds) (argument_data # rest) =
     (case (if argument_type = CHR ''R'' then assemble_register a argument_data
            else if argument_type = CHR ''C'' then assemble_constant a argument_data
            else if argument_type = CHR ''L'' then assemble_label p a argument_data
            else Inr a) of
        Inl e \<Rightarrow> Inl e
      | Inr a' \<Rightarrow> assemble_arguments p a' kinds rest)"
| "assemble_arguments p a _ _ = Inr a"

text \<open>One round of the outer loop of \<open>Assembler.build\<close>.\<close>

definition assemble_instruction :: "parser \<Rightarrow> assembler \<Rightarrow> instruction \<Rightarrow> exn + assembler" where
  "assemble_instruction p a instruction =
     (let a1 = a\<lparr>offsets_list := offsets_list a @ [length (bytecode a)]\<rparr> in
      case map_of Opcodes (fst instruction) of
        None \<Rightarrow> Inl KeyError
      | Some (code, args) \<Rightarrow> assemble_arguments p (append_bits a1 code) args (snd instruction))"

fun assemble_instructions ::
  "parser \<Rightarrow> assembler \<Rightarrow> instruction list \<Rightarrow> exn + assembler" where
  "assemble_instructions p a [] = Inr a"
| "assemble_instructions p a (instruction # rest) =
     (case assemble_instruction p a instruction of
        Inl e \<Rightarrow> Inl e
      | Inr a' \<Rightarrow> assemble_instructions p a' rest)"

text \<open>The first part of \<open>Assembler.build\<close>: the loop and the patches.\<close>

definition emit :: "parser \<Rightarrow> exn + assembler" where
  "emit p =
     (case assemble_instructions p assembler_init (code_section p) of
        Inl e \<Rightarrow> Inl e
      | Inr a \<Rightarrow> apply_patches a)"

text \<open>The padding to a whole number of bytes.\<close>

definition pad_bytecode :: "string \<Rightarrow> string" where
  "pad_bytecode bc =
     (if length bc mod 8 \<noteq> 0 then bc @ replicate (8 - length bc mod 8) (CHR ''0'') else bc)"

text \<open>The slices \<open>bytecode[i:i + 8]\<close> for \<open>i\<close> in \<open>range(0, len(bytecode), 8)\<close>.\<close>

definition chunks8 :: "string \<Rightarrow> string list" where
  "chunks8 bc = map (\<lambda>i. take 8 (drop (8 * i) bc)) [0..<(length bc + 7) div 8]"

text \<open>\<open>struct.pack("B", int("".join(chunk), 2))\<close>.\<close>

definition pack_chunk :: "string \<Rightarrow> exn + nat list" where
  "pack_chunk chunk = (case py_int 2 chunk of None \<Rightarrow> Inl ValueError | Some byte \<Rightarrow> pack_B byte)"

text \<open>The writes to the handle, in order: the first value that cannot be packed
  raises, and what was written before stays in the file.\<close>

fun write_all :: "nat list \<Rightarrow> (exn + nat list) list \<Rightarrow> exn option \<times> nat list" where
  "write_all out [] = (None, out)"
| "write_all out (Inl e # rest) = (Some e, out)"
| "write_all out (Inr bs # rest) = write_all (out @ bs) rest"

definition magic :: "nat list" where
  "magic = map of_char ''ESET-VM2''"

text \<open>The data size that \<open>build\<close> writes: the declared one, or the length of the data
  when that is larger. An undeclared size is \<open>None\<close>, which does not compare.\<close>

definition reconcile :: "parser \<Rightarrow> exn + (string list \<times> int)" where
  "reconcile p =
     (let actual_data_size = int (length (data_section p)) in
      case data_size p of
        None \<Rightarrow> Inl TypeError
      | Some declared \<Rightarrow>
          if actual_data_size > declared
          then Inr ([''Warning: bad .dataSize, was '' @ format_d declared @ '' but used ''
                       @ format_d actual_data_size @ '', expanding''], actual_data_size)
          else Inr ([], declared))"

text \<open>\<open>Assembler.build\<close>: the exception raised (if any), the lines printed, and the
  contents of the output file, \<open>None\<close> when it was not opened.\<close>

definition build :: "parser \<Rightarrow> exn option \<times> string list \<times> nat list option" where
  "build p =
     (case emit p of
        Inl e \<Rightarrow> (Some e, [], None)
      | Inr a \<Rightarrow>
          (case reconcile p of
             Inl e \<Rightarrow> (Some e, [], None)
           | Inr (printed, new_size) \<Rightarrow>
               (let bc = pad_bytecode (bytecode a);
                    w = write_all []
                          (Inr magic
                           # pack_I (int (length bc div 8))
                           # pack_I new_size
                           # pack_I (int (length (data_section p)))
                           # map pack_chunk (chunks8 bc)
                           @ map pack_B (data_section p))
                in (fst w, printed, Some (snd w)))))"

subsection \<open>The driver\<close>

text \<open>How the process ends: \<open>sys.exit\<close> with a code (0 when \<open>main\<close> returns), or an
  exception that nothing catches.\<close>

datatype outcome = Exit nat | Uncaught exn

record run =
  status :: outcome
  stdout :: "string list"
  output_file :: "nat list option"

definition main :: "string list \<Rightarrow> run" where
  "main input_lines =
     (case analyse input_lines of
        (Some (ParserError msg), p) \<Rightarrow>
          \<lparr>status = Exit 2,
           stdout = [''Parser error on line '' @ format_d (last_parsed_line_no p) @ '': '' @ msg],
           output_file = None\<rparr>
      | (Some e, p) \<Rightarrow> \<lparr>status = Uncaught e, stdout = [], output_file = None\<rparr>
      | (None, p) \<Rightarrow>
          (case build p of
             (Some (AssemblerError msg), printed, f) \<Rightarrow>
               \<lparr>status = Exit 3, stdout = printed @ [''Assembler error: '' @ msg],
                output_file = f\<rparr>
           | (Some e, printed, f) \<Rightarrow> \<lparr>status = Uncaught e, stdout = printed, output_file = f\<rparr>
           | (None, printed, f) \<Rightarrow>
               \<lparr>status = Exit 0, stdout = printed @ [''All ok''], output_file = f\<rparr>))"

subsection \<open>Reading the bit buffer\<close>

text \<open>The value of a field of the bit buffer: the character \<open>1\<close> is a one bit, and
  the field is read with its first character least significant (\<open>lsb_value\<close>, the
  order of the reversed fields) or most significant (\<open>msb_value\<close>, the order in
  which \<open>int(..., 2)\<close> reads the eight characters of a byte).\<close>

definition bit_val :: "char \<Rightarrow> nat" where
  "bit_val c = (if c = CHR ''1'' then 1 else 0)"

primrec lsb_value :: "string \<Rightarrow> nat" where
  "lsb_value [] = 0"
| "lsb_value (c # cs) = bit_val c + 2 * lsb_value cs"

definition msb_value :: "string \<Rightarrow> nat" where
  "msb_value s = lsb_value (rev s)"

subsection \<open>Reading the output file\<close>

text \<open>The unsigned 32-bit little-endian number at byte \<open>i\<close> of a file (0 when the
  file ends before).\<close>

definition read_I :: "nat list \<Rightarrow> nat \<Rightarrow> nat" where
  "read_I bs i =
     (case take 4 (drop i bs) of
        [b0, b1, b2, b3] \<Rightarrow> b0 + 256 * b1 + 65536 * b2 + 16777216 * b3
      | _ \<Rightarrow> 0)"

subsection \<open>Faulty lines\<close>









subsection \<open>Invariants of the first pass of \<open>build\<close>\<close>

text \<open>The characters that the first pass puts into the bit buffer: the two binary
  digits and the sign of a negative constant.\<close>

definition bit_chars :: "char set" where
  "bit_chars = {CHR ''0'', CHR ''1'', CHR ''-''}"

text \<open>The keys of the patches are in increasing order, 32 positions apart at least,
  from \<open>lo\<close> on.\<close>

fun patches_ok :: "nat \<Rightarrow> (nat \<times> nat) list \<Rightarrow> bool" where
  "patches_ok lo [] = True"
| "patches_ok lo ((k, v) # ps) = (lo \<le> k \<and> patches_ok (k + 32) ps)"

text \<open>What holds of the assembler between two steps of the first pass: the buffer
  holds bit characters, every patch has its 32 positions inside the buffer, and the
  offsets recorded are offsets of the buffer.\<close>

definition first_pass_inv :: "assembler \<Rightarrow> bool" where
  "first_pass_inv a =
     (set (bytecode a) \<subseteq> bit_chars
      \<and> patches_ok 0 (offset_patches a)
      \<and> (\<forall>kv \<in> set (offset_patches a). fst kv + 32 \<le> length (bytecode a))
      \<and> (\<forall>x \<in> set (offsets_list a). x \<le> length (bytecode a)))"

text \<open>A later state of the first pass: the three fields have only been appended to,
  and the new patches are at positions behind the old buffer.\<close>

definition extends :: "assembler \<Rightarrow> assembler \<Rightarrow> bool" where
  "extends a a' =
     ((\<exists>bits. bytecode a' = bytecode a @ bits)
      \<and> (\<exists>os. offsets_list a' = offsets_list a @ os)
      \<and> (\<exists>ps. offset_patches a' = offset_patches a @ ps
                \<and> (\<forall>kv \<in> set ps. length (bytecode a) \<le> fst kv)))"

subsection \<open>References to labels\<close>

text \<open>Some instruction of the code section has the label \<open>l\<close> as an argument of
  kind \<open>L\<close>.\<close>

definition references_label :: "parser \<Rightarrow> string \<Rightarrow> bool" where
  "references_label p l =
     list_ex (\<lambda>(name, args).
                case map_of Opcodes name of
                  None \<Rightarrow> False
                | Some (code, kinds) \<Rightarrow>
                    list_ex (\<lambda>(kind, arg). kind = CHR ''L'' \<and> arg = StrArg l) (zip kinds args))
       (code_section p)"

subsection \<open>The layout of the output file\<close>

text \<open>The four bytes of an unsigned 32-bit number, least significant byte first.\<close>

definition le32 :: "nat \<Rightarrow> nat list" where
  "le32 n = [n mod 256, n div 256 mod 256, n div 65536 mod 256, n div 16777216 mod 256]"

section \<open>Properties\<close>

subsection \<open>Sources without a \<open>.dataSize\<close> directive\<close>

lemma build_undeclared_size:
  "data_size p = None \<Longrightarrow> fst (build p) \<noteq> None \<and> snd (snd (build p)) = None"
  by (simp add: build_def reconcile_def split: sum.splits)

text \<open>
  Claim C2: a source that never declares \<open>.dataSize\<close> is assembled with a data
  size of zero, widened to the length of the data, and the run succeeds.

  In the source the undeclared size stays \<open>None\<close>, and the comparison
  \<open>actual_data_size > self.__parser.data_size\<close> of \<open>build\<close> raises \<open>TypeError\<close>
  before the output file is opened: the run of the two-line program \<open>.code\<close>,
  \<open>hlt\<close> ends with that exception, prints nothing and writes no file.
\<close>

theorem undeclared_data_size_run:
  "main [''.code'', ''hlt'']
     = \<lparr>status = Uncaught TypeError, stdout = [], output_file = None\<rparr>"
  by code_simp

subsection \<open>Register arguments\<close>

text \<open>
  Claim C4: for every register id that the parser accepts (0 to 16) the value form
  of a register argument is emitted in 5 bits and the reference form in 7 bits.

  The parser accepts \<open>r16\<close>, and \<open>"{0:04b}".format(16)\<close> has five digits: the
  value form of register 16 takes 6 bits and the reference form 8 bits.
\<close>

theorem register_16_widths:
  "parse_arguments [] ''RR'' [''r16'', ''byte[r16]'']
     = Inr [RegArg 16 None, RegArg 16 (Some ''byte'')]
   \<and> assemble_register assembler_init (RegArg 16 None)
     = Inr \<lparr>bytecode = ''000001'', offsets_list = [], offset_patches = []\<rparr>
   \<and> assemble_register assembler_init (RegArg 16 (Some ''byte''))
     = Inr \<lparr>bytecode = ''10000001'', offsets_list = [], offset_patches = []\<rparr>"
  by code_simp

subsection \<open>Data bytes\<close>

text \<open>
  Claim C5: after a successful parse every element of \<open>data_section\<close> lies in
  0 to 255.

  \<open>int(entry, 16)\<close> reads a sign, and \<open>__parse_data\<close> checks the upper bound only:
  the data line \<open>-1\<close> is parsed without an error and stores the value \<open>-1\<close>.
\<close>

theorem negative_data_byte_parsed:
  "analyse [''.data'', ''-1'']
     = (None,
        \<lparr>parse_mode = Some Data, data_size = None, data_labels = [],
         data_section = [- 1], code_labels = [], code_section = [],
         last_parsed_line = ''-1'', last_parsed_line_no = 2\<rparr>)"
  by code_simp

subsection \<open>Malformed directives\<close>

text \<open>
  Claim C6: every parse failure, a \<open>.dataSize\<close> directive with a missing or
  non-decimal operand among them, raises \<open>Parser.Error\<close>, and the driver exits with
  code 2 after the message \<open>Parser error on line N: ...\<close>.

  \<open>__parse_section\<close> reads \<open>tokens[1]\<close> and converts it with \<open>int\<close> unguarded: a
  missing operand raises \<open>IndexError\<close> and a non-decimal one \<open>ValueError\<close>. The
  driver catches \<open>Parser.Error\<close> only, so neither run prints the message or exits
  with code 2.
\<close>

theorem malformed_data_size_run:
  "main [''.dataSize'']
     = \<lparr>status = Uncaught IndexError, stdout = [], output_file = None\<rparr>
   \<and> main [''.dataSize abc'']
     = \<lparr>status = Uncaught ValueError, stdout = [], output_file = None\<rparr>"
  by code_simp

subsection \<open>Binary formatting\<close>

lemma bin_digits_chars: "set (bin_digits n) \<subseteq> {CHR ''0'', CHR ''1''}"
proof (induction n rule: bin_digits.induct)
  case (1 n)
  show ?case
  proof (cases "n < 2")
    case True
    then show ?thesis by (simp add: bin_digits.simps [of n])
  next
    case False
    with "1" show ?thesis by (simp add: bin_digits.simps [of n])
  qed
qed

lemma length_bin_digits: "n < 2 ^ w \<Longrightarrow> 0 < w \<Longrightarrow> length (bin_digits n) \<le> w"
proof (induction n arbitrary: w rule: bin_digits.induct)
  case (1 n)
  show ?case
  proof (cases "n < 2")
    case True
    with "1.prems" show ?thesis by (simp add: bin_digits.simps [of n])
  next
    case False
    obtain w' where w: "w = Suc w'" using "1.prems" by (cases w) auto
    have w'pos: "0 < w'" using False "1.prems" w by (cases w') auto
    have "n div 2 < 2 ^ w'" using "1.prems" w by auto
    with "1.IH" [OF False this w'pos] False w show ?thesis
      by (simp add: bin_digits.simps [of n])
  qed
qed

lemma lsb_value_rev_bin_digits: "lsb_value (rev (bin_digits n)) = n"
proof (induction n rule: bin_digits.induct)
  case (1 n)
  show ?case
  proof (cases "n < 2")
    case True
    then show ?thesis by (auto simp add: bin_digits.simps [of n] bit_val_def)
  next
    case False
    have "lsb_value (rev (bin_digits n)) = (if n mod 2 = 0 then 0 else 1) + 2 * (n div 2)"
      using False "1" by (simp add: bin_digits.simps [of n] bit_val_def)
    also have "\<dots> = n" by presburger
    finally show ?thesis .
  qed
qed

lemma lsb_value_append_zeros: "lsb_value (xs @ replicate k (CHR ''0'')) = lsb_value xs"
proof (induction xs)
  case Nil
  show ?case by (induction k) (simp_all add: bit_val_def)
next
  case (Cons x xs)
  then show ?case by simp
qed

lemma format_b_nonneg:
  assumes "0 \<le> v" and "v < 2 ^ w" and "0 < w"
  shows "length (format_b w v) = w"
    and "set (format_b w v) \<subseteq> {CHR ''0'', CHR ''1''}"
    and "lsb_value (rev (format_b w v)) = nat v"
proof -
  have lt: "nat v < 2 ^ w" using assms by (simp add: nat_less_iff)
  have len: "length (bin_digits (nat v)) \<le> w" by (rule length_bin_digits [OF lt assms(3)])
  show "length (format_b w v) = w" using assms(1) len by (simp add: format_b_def zero_pad_def)
  show "set (format_b w v) \<subseteq> {CHR ''0'', CHR ''1''}"
    using assms(1) bin_digits_chars [of "nat v"] by (auto simp add: format_b_def zero_pad_def)
  show "lsb_value (rev (format_b w v)) = nat v"
    using assms(1)
    by (simp add: format_b_def zero_pad_def lsb_value_append_zeros lsb_value_rev_bin_digits)
qed

subsection \<open>Constants\<close>

text \<open>
  Claim C3: every accepted integer literal of a \<open>C\<close> argument is emitted as
  exactly 64 bits, least significant first, negative values in two's complement.

  The format \<open>064b\<close> writes a negative value as a minus sign and the digits of its
  magnitude: for the literal \<open>-1\<close> the 64 characters appended to the bit buffer are
  \<open>1\<close>, 62 zeros and the sign, not 64 ones. The sign is then part of a byte of the
  code image: in the first run below \<open>int("00-00000", 2)\<close> raises \<open>ValueError\<close>
  after the header and eight code bytes have been written, in the second one the sign
  starts a byte, \<open>int("-0000000", 2)\<close> is 0, and the run reports success with a
  constant of which only the lowest bit is set.
\<close>

theorem negative_constant_run:
  "py_int 0 ''-1'' = Some (- 1)
   \<and> assemble_constant assembler_init (StrArg ''-1'')
     = Inr \<lparr>bytecode = CHR ''1'' # replicate 62 (CHR ''0'') @ ''-'',
            offsets_list = [], offset_patches = []\<rparr>
   \<and> main [''.dataSize 0'', ''.code'', ''loadConst -1, r0'', ''hlt'']
     = \<lparr>status = Uncaught ValueError, stdout = [],
        output_file = Some [69, 83, 69, 84, 45, 86, 77, 50, 10, 0, 0, 0, 0, 0, 0, 0, 0, 0, 0, 0,
                            48, 0, 0, 0, 0, 0, 0, 0]\<rparr>
   \<and> main [''.dataSize 0'', ''.code'', ''ret'', ''hlt'', ''hlt'', ''loadConst -1, r0'',
            ''mov r0, r0'']
     = \<lparr>status = Exit 0, stdout = [''All ok''],
        output_file = Some [69, 83, 69, 84, 45, 86, 77, 50, 13, 0, 0, 0, 0, 0, 0, 0, 0, 0, 0, 0,
                            219, 88, 192, 0, 0, 0, 0, 0, 0, 0, 0, 0, 0]\<rparr>"
  by code_simp

subsection \<open>The header of the output file\<close>

lemma write_all_prefix: "\<exists>t. snd (write_all out ws) = out @ t"
proof (induction out ws rule: write_all.induct)
  case (3 out bs rest)
  then obtain t where "snd (write_all (out @ bs) rest) = (out @ bs) @ t" by blast
  then show ?case by simp
qed simp_all

lemma le_bytes_value:
  assumes "0 \<le> v" and "v < 4294967296"
  shows "v mod 256 + 256 * (v div 256 mod 256) + 65536 * (v div 65536 mod 256)
            + 16777216 * (v div 16777216 mod 256) = (v::int)"
proof -
  define a where "a = v div 256"
  define b where "b = a div 256"
  define c where "c = b div 256"
  have b: "v div 65536 = b"
    unfolding b_def a_def by (subst zdiv_zmult2_eq [symmetric]) simp_all
  have c: "v div 16777216 = c"
    unfolding c_def b [symmetric] by (subst zdiv_zmult2_eq [symmetric]) simp_all
  have f1: "v = 256 * a + v mod 256" unfolding a_def by simp
  have f2: "a = 256 * b + a mod 256" unfolding b_def by simp
  have f3: "b = 256 * c + b mod 256" unfolding c_def by simp
  have r1: "0 \<le> v mod 256" "v mod 256 < 256" by simp_all
  have r2: "0 \<le> a mod 256" "a mod 256 < 256" by simp_all
  have r3: "0 \<le> b mod 256" "b mod 256 < 256" by simp_all
  have c_small: "c < 256" using f1 f2 f3 r1 r2 r3 assms by linarith
  have c_nonneg: "0 \<le> c" using f1 f2 f3 r1 r2 r3 assms by linarith
  have f4: "c mod 256 = c" using c_small c_nonneg by simp
  have "v mod 256 + 256 * (a mod 256) + 65536 * (b mod 256) + 16777216 * (c mod 256) = v"
    using f1 f2 f3 f4 by linarith
  then show ?thesis unfolding b c a_def [symmetric] .
qed


lemma pack_I_Inr:
  assumes "pack_I v = Inr bs"
  shows "length bs = 4" and "int (read_I bs 0) = v" and "0 \<le> v" and "v < 4294967296"
proof -
  have range: "0 \<le> v \<and> v < 4294967296"
    using assms by (cases "0 \<le> v \<and> v < 4294967296") (simp_all add: pack_I_def)
  then have bs: "bs = [nat (v mod 256), nat (v div 256 mod 256), nat (v div 65536 mod 256),
                   nat (v div 16777216 mod 256)]"
    using assms by (simp add: pack_I_def)
  show "length bs = 4" by (simp add: bs)
  show "0 \<le> v" "v < 4294967296" using range by simp_all
  have "int (read_I bs 0) = v mod 256 + 256 * (v div 256 mod 256) + 65536 * (v div 65536 mod 256)
            + 16777216 * (v div 16777216 mod 256)"
    by (simp add: bs read_I_def)
  then show "int (read_I bs 0) = v" using le_bytes_value range by simp
qed

lemma read_I_append_left: "length ys = 4 \<Longrightarrow> read_I (ys @ t) 0 = read_I ys 0"
  by (simp add: read_I_def)

lemma read_I_append_right: "length xs = i \<Longrightarrow> read_I (xs @ ys) i = read_I ys 0"
  by (simp add: read_I_def)

lemma reconcile_size:
  "reconcile p = Inr (printed, new_size) \<Longrightarrow> int (length (data_section p)) \<le> new_size"
  by (auto simp add: reconcile_def Let_def split: option.splits if_splits)

lemma length_magic: "length magic = 8"
  by (simp add: magic_def)

text \<open>
  Claim C9: in the header of every output file that the assembler writes, the data
  size is at least the initial data length.

  The theorem covers every file that \<open>build\<close> leaves behind, also one cut short by
  an exception of a later write, as soon as it holds the 20 bytes of the header: the
  field at byte 16 is the number of data bytes of the program, and the field at
  byte 12 is not smaller.
\<close>

theorem header_data_size_ge_initial_length:
  assumes "snd (snd (build p)) = Some bs" and "20 \<le> length bs"
  shows "read_I bs 16 = length (data_section p) \<and> read_I bs 16 \<le> read_I bs 12"
proof -
  from assms(1) obtain a printed new_size where
    e: "emit p = Inr a" and r: "reconcile p = Inr (printed, new_size)"
    by (auto simp add: build_def split: sum.splits)
  define bc where "bc = pad_bytecode (bytecode a)"
  define rest where "rest = map pack_chunk (chunks8 bc) @ map pack_B (data_section p)"
  define dl where "dl = int (length (data_section p))"
  define w1 where "w1 = pack_I (int (length bc div 8))"
  define w2 where "w2 = pack_I new_size"
  define w3 where "w3 = pack_I dl"
  have bs: "bs = snd (write_all [] (Inr magic # w1 # w2 # w3 # rest))"
    using assms(1) e r by (simp add: build_def bc_def rest_def dl_def w1_def w2_def w3_def Let_def)
  have le: "dl \<le> new_size" using reconcile_size [OF r] by (simp add: dl_def)
  from bs assms(2) obtain b1 where b1: "w1 = Inr b1"
    by (cases w1) (simp_all add: length_magic)
  have l1: "length b1 = 4" using b1 pack_I_Inr(1) by (simp add: w1_def)
  from bs assms(2) b1 l1 obtain b2 where b2: "w2 = Inr b2"
    by (cases w2) (simp_all add: length_magic)
  have l2: "length b2 = 4" using b2 pack_I_Inr(1) by (simp add: w2_def)
  from bs assms(2) b1 l1 b2 l2 obtain b3 where b3: "w3 = Inr b3"
    by (cases w3) (simp_all add: length_magic)
  have l3: "length b3 = 4" using b3 pack_I_Inr(1) by (simp add: w3_def)
  obtain t where "snd (write_all (((([] @ magic) @ b1) @ b2) @ b3) rest)
                    = (((([] @ magic) @ b1) @ b2) @ b3) @ t"
    using write_all_prefix by blast
  then have bs12: "bs = (magic @ b1) @ (b2 @ b3 @ t)" and bs16: "bs = (magic @ b1 @ b2) @ (b3 @ t)"
    using bs b1 b2 b3 by simp_all
  have "read_I bs 12 = read_I (b2 @ b3 @ t) 0"
    unfolding bs12 by (rule read_I_append_right) (simp add: length_magic l1)
  then have r12: "int (read_I bs 12) = new_size"
    using read_I_append_left [of b2 "b3 @ t"] l2 pack_I_Inr(2) [of new_size b2] b2
    by (simp add: w2_def)
  have "read_I bs 16 = read_I (b3 @ t) 0"
    unfolding bs16 by (rule read_I_append_right) (simp add: length_magic l1 l2)
  then have r16: "int (read_I bs 16) = dl"
    using read_I_append_left [of b3 t] l3 pack_I_Inr(2) [of dl b3] b3
    by (simp add: w3_def)
  from r12 r16 le show ?thesis by (simp add: dl_def)
qed

theorem header_data_size_ge_initial_length_witness:
  "snd (snd (build (snd (analyse [''.dataSize 2'', ''.data'', ''DE AD BE EF'', ''.code'', ''hlt'']))))
     = Some [69, 83, 69, 84, 45, 86, 77, 50, 1, 0, 0, 0, 4, 0, 0, 0, 4, 0, 0, 0,
             176, 222, 173, 190, 239]
   \<and> 20 \<le> length [69, 83, 69, 84, 45, 86, 77, 50, 1, 0, 0, 0, 4, 0, 0, 0, 4, 0, 0, 0,
                     176, 222, 173, 190, 239 :: nat]
   \<and> read_I [69, 83, 69, 84, 45, 86, 77, 50, 1, 0, 0, 0, 4, 0, 0, 0, 4, 0, 0, 0,
             176, 222, 173, 190, 239] 16
       = length (data_section
                  (snd (analyse [''.dataSize 2'', ''.data'', ''DE AD BE EF'', ''.code'', ''hlt''])))
   \<and> read_I [69, 83, 69, 84, 45, 86, 77, 50, 1, 0, 0, 0, 4, 0, 0, 0, 4, 0, 0, 0,
             176, 222, 173, 190, 239] 16
       \<le> read_I [69, 83, 69, 84, 45, 86, 77, 50, 1, 0, 0, 0, 4, 0, 0, 0, 4, 0, 0, 0,
                 176, 222, 173, 190, 239] 12"
proof -
  have h: "snd (snd (build (snd (analyse [''.dataSize 2'', ''.data'', ''DE AD BE EF'', ''.code'', ''hlt'']))))
     = Some [69, 83, 69, 84, 45, 86, 77, 50, 1, 0, 0, 0, 4, 0, 0, 0, 4, 0, 0, 0,
             176, 222, 173, 190, 239]"
    by code_simp
  have l: "20 \<le> length [69, 83, 69, 84, 45, 86, 77, 50, 1, 0, 0, 0, 4, 0, 0, 0, 4, 0, 0, 0,
                     176, 222, 173, 190, 239 :: nat]"
    by simp
  show ?thesis
    using h l header_data_size_ge_initial_length [OF h l] by blast
qed

subsection \<open>Parse errors\<close>






lemma strip_no_space:
  assumes "s \<noteq> []" and "\<not> is_space (hd s)" and "\<not> is_space (last s)"
  shows "strip s = s"
proof -
  have 1: "dropWhile is_space s = s" using assms(1,2) by (cases s) auto
  have 2: "dropWhile is_space (rev s) = rev s"
    using assms(1,3) by (cases "rev s") (auto simp add: last_rev [symmetric] simp del: last_rev)
  show ?thesis by (simp add: strip_def 1 2)
qed


















subsection \<open>The first pass\<close>

lemma dict_set_fresh: "k \<notin> fst ` set d \<Longrightarrow> dict_set d k v = d @ [(k, v)]"
  by (induction d) auto

lemma patches_ok_append:
  "patches_ok lo ps \<Longrightarrow> \<forall>kv \<in> set ps. fst kv + 32 \<le> k \<Longrightarrow> lo \<le> k
     \<Longrightarrow> patches_ok lo (ps @ [(k, v)])"
  by (induction lo ps rule: patches_ok.induct) auto

lemma patches_ok_lower: "patches_ok lo ps \<Longrightarrow> kv \<in> set ps \<Longrightarrow> lo \<le> fst kv"
  by (induction lo ps rule: patches_ok.induct) auto

lemma extends_refl: "extends a a"
  by (simp add: extends_def)

lemma extends_trans:
  assumes "extends a b" and "extends b c"
  shows "extends a c"
proof -
  from assms(1) obtain bits1 os1 ps1 where
    1: "bytecode b = bytecode a @ bits1" "offsets_list b = offsets_list a @ os1"
       "offset_patches b = offset_patches a @ ps1"
       "\<forall>kv \<in> set ps1. length (bytecode a) \<le> fst kv"
    by (auto simp add: extends_def)
  from assms(2) obtain bits2 os2 ps2 where
    2: "bytecode c = bytecode b @ bits2" "offsets_list c = offsets_list b @ os2"
       "offset_patches c = offset_patches b @ ps2"
       "\<forall>kv \<in> set ps2. length (bytecode b) \<le> fst kv"
    by (auto simp add: extends_def)
  have "bytecode c = bytecode a @ (bits1 @ bits2)" using 1 2 by simp
  moreover have "offsets_list c = offsets_list a @ (os1 @ os2)" using 1 2 by simp
  moreover have "offset_patches c = offset_patches a @ (ps1 @ ps2)" using 1 2 by simp
  moreover have "\<forall>kv \<in> set (ps1 @ ps2). length (bytecode a) \<le> fst kv"
    using 1 2 by fastforce
  ultimately show ?thesis unfolding extends_def by blast
qed

lemma append_bits_inv:
  assumes "first_pass_inv a" and "set bits \<subseteq> bit_chars"
  shows "first_pass_inv (append_bits a bits)" and "extends a (append_bits a bits)"
proof -
  show "first_pass_inv (append_bits a bits)"
    using assms by (fastforce simp add: first_pass_inv_def append_bits_def)
  show "extends a (append_bits a bits)"
    by (simp add: extends_def append_bits_def)
qed

lemma bin_digits_bit_chars: "set (bin_digits n) \<subseteq> bit_chars"
  using bin_digits_chars [of n] by (auto simp add: bit_chars_def)

lemma format_b_bit_chars: "set (format_b w v) \<subseteq> bit_chars"
proof -
  have "CHR ''0'' \<in> bit_chars" "CHR ''-'' \<in> bit_chars" by (simp_all add: bit_chars_def)
  then show ?thesis
    using bin_digits_bit_chars [of "nat v"] bin_digits_bit_chars [of "nat (- v)"]
    by (auto simp add: format_b_def zero_pad_def)
qed

lemma length_format_b_32_0: "length (format_b 32 0) = 32"
  using format_b_nonneg(1) [of 0 32] by simp

lemma DataAccessTypes_bit_chars:
  "map_of DataAccessTypes r = Some width \<Longrightarrow> set width \<subseteq> bit_chars"
  by (auto simp add: DataAccessTypes_def bit_chars_def split: if_splits)

lemma Opcodes_codes_all: "\<forall>e \<in> set Opcodes. set (fst (snd e)) \<subseteq> bit_chars"
  by (simp add: Opcodes_def bit_chars_def)

lemma Opcodes_code_bit_chars:
  assumes "map_of Opcodes m = Some (code, kinds)"
  shows "set code \<subseteq> bit_chars"
proof -
  have "(m, code, kinds) \<in> set Opcodes" using assms by (rule map_of_SomeD)
  then show ?thesis using Opcodes_codes_all by fastforce
qed

lemma assemble_register_bits:
  assumes "assemble_register a arg = Inr a'"
  shows "\<exists>bits. a' = append_bits a bits \<and> set bits \<subseteq> bit_chars"
proof (cases arg)
  case (StrArg s)
  with assms show ?thesis by (simp add: assemble_register_def split: if_splits)
next
  case (RegArg register_id reference_type)
  have z: "CHR ''0'' \<in> bit_chars" "CHR ''1'' \<in> bit_chars" by (simp_all add: bit_chars_def)
  show ?thesis
  proof (cases "reference_type \<noteq> None \<and> reference_type \<noteq> Some []")
    case True
    with assms RegArg obtain width where
      w: "map_of DataAccessTypes (the reference_type) = Some width"
      and a': "a' = append_bits a (''1'' @ rev width @ rev (format_b 4 (int register_id)))"
      by (auto simp add: assemble_register_def split: option.splits)
    have "set (''1'' @ rev width @ rev (format_b 4 (int register_id))) \<subseteq> bit_chars"
      using DataAccessTypes_bit_chars [OF w] format_b_bit_chars [of 4 "int register_id"] z
      by auto
    with a' show ?thesis by blast
  next
    case False
    with assms RegArg have a': "a' = append_bits a (''0'' @ rev (format_b 4 (int register_id)))"
      by (auto simp add: assemble_register_def)
    have "set (''0'' @ rev (format_b 4 (int register_id))) \<subseteq> bit_chars"
      using format_b_bit_chars [of 4 "int register_id"] z by auto
    with a' show ?thesis by blast
  qed
qed

lemma assemble_constant_bits:
  assumes "assemble_constant a arg = Inr a'"
  shows "\<exists>bits. a' = append_bits a bits \<and> set bits \<subseteq> bit_chars"
proof -
  from assms obtain s v where "a' = append_bits a (rev (format_b 64 v))"
    by (auto simp add: assemble_constant_def split: argument.splits option.splits)
  moreover have "set (rev (format_b 64 v)) \<subseteq> bit_chars" using format_b_bit_chars by simp
  ultimately show ?thesis by blast
qed

text \<open>The two cases of \<open>__assemble_label\<close>.\<close>

lemma assemble_label_cases:
  assumes "assemble_label p a arg = Inr a'"
  obtains (backward) s idx where "arg = StrArg s" and "map_of (code_labels p) s = Some idx"
      and "idx < length (offsets_list a)"
      and "a' = append_bits a (rev (format_b 32 (int (offsets_list a ! idx))))"
    | (forward) s idx where "arg = StrArg s" and "map_of (code_labels p) s = Some idx"
      and "length (offsets_list a) \<le> idx"
      and "a' = append_bits
                  (a\<lparr>offset_patches := dict_set (offset_patches a) (length (bytecode a)) idx\<rparr>)
                  (rev (format_b 32 0))"
  using assms
  by (auto simp add: assemble_label_def split: argument.splits option.splits if_splits)

lemma forward_patch_inv:
  assumes "first_pass_inv a"
  shows "first_pass_inv
           (append_bits
              (a\<lparr>offset_patches := dict_set (offset_patches a) (length (bytecode a)) idx\<rparr>)
              (rev (format_b 32 0)))"
    and "extends a
           (append_bits
              (a\<lparr>offset_patches := dict_set (offset_patches a) (length (bytecode a)) idx\<rparr>)
              (rev (format_b 32 0)))"
    and "dict_set (offset_patches a) (length (bytecode a)) idx
           = offset_patches a @ [(length (bytecode a), idx)]"
proof -
  have below: "\<forall>kv \<in> set (offset_patches a). fst kv + 32 \<le> length (bytecode a)"
    using assms by (simp add: first_pass_inv_def)
  then have "length (bytecode a) \<notin> fst ` set (offset_patches a)" by fastforce
  then show d: "dict_set (offset_patches a) (length (bytecode a)) idx
           = offset_patches a @ [(length (bytecode a), idx)]"
    by (rule dict_set_fresh)
  have ok: "patches_ok 0 (offset_patches a @ [(length (bytecode a), idx)])"
    using assms below by (simp add: first_pass_inv_def patches_ok_append)
  have ch: "set (rev (format_b 32 0)) \<subseteq> bit_chars" using format_b_bit_chars by simp
  show "first_pass_inv
           (append_bits
              (a\<lparr>offset_patches := dict_set (offset_patches a) (length (bytecode a)) idx\<rparr>)
              (rev (format_b 32 0)))"
    unfolding d using assms ok ch below
    by (fastforce simp add: first_pass_inv_def append_bits_def length_format_b_32_0)
  show "extends a
           (append_bits
              (a\<lparr>offset_patches := dict_set (offset_patches a) (length (bytecode a)) idx\<rparr>)
              (rev (format_b 32 0)))"
    unfolding d by (simp add: extends_def append_bits_def)
qed

lemma assemble_label_inv:
  assumes "assemble_label p a arg = Inr a'" and "first_pass_inv a"
  shows "first_pass_inv a' \<and> extends a a' \<and> offsets_list a' = offsets_list a"
  using assms(1)
proof (cases rule: assemble_label_cases)
  case (backward s idx)
  have "set (rev (format_b 32 (int (offsets_list a ! idx)))) \<subseteq> bit_chars"
    using format_b_bit_chars by simp
  then show ?thesis
    using backward(4) append_bits_inv [OF assms(2)] by (simp add: append_bits_def)
next
  case (forward s idx)
  then show ?thesis
    using forward_patch_inv(1,2) [OF assms(2), of idx] by (simp add: append_bits_def)
qed

text \<open>One argument, whatever its kind.\<close>

lemma assemble_argument_inv:
  assumes "(if argument_type = CHR ''R'' then assemble_register a argument_data
            else if argument_type = CHR ''C'' then assemble_constant a argument_data
            else if argument_type = CHR ''L'' then assemble_label p a argument_data
            else Inr a) = Inr a'"
    and "first_pass_inv a"
  shows "first_pass_inv a' \<and> extends a a' \<and> offsets_list a' = offsets_list a"
proof -
  consider (R) "argument_type = CHR ''R''" "assemble_register a argument_data = Inr a'"
    | (C) "argument_type = CHR ''C''" "assemble_constant a argument_data = Inr a'"
    | (L) "argument_type = CHR ''L''" "assemble_label p a argument_data = Inr a'"
    | (other) "a' = a"
    using assms(1) by (auto split: if_splits)
  then show ?thesis
  proof cases
    case R
    then obtain bits where "a' = append_bits a bits" "set bits \<subseteq> bit_chars"
      using assemble_register_bits by blast
    then show ?thesis using append_bits_inv [OF assms(2)] by (simp add: append_bits_def)
  next
    case C
    then obtain bits where "a' = append_bits a bits" "set bits \<subseteq> bit_chars"
      using assemble_constant_bits by blast
    then show ?thesis using append_bits_inv [OF assms(2)] by (simp add: append_bits_def)
  next
    case L
    then show ?thesis using assemble_label_inv assms(2) by blast
  next
    case other
    then show ?thesis using assms(2) extends_refl by simp
  qed
qed

lemma assemble_arguments_inv:
  assumes "assemble_arguments p a kinds args = Inr a'" and "first_pass_inv a"
  shows "first_pass_inv a' \<and> extends a a' \<and> offsets_list a' = offsets_list a"
  using assms
proof (induction p a kinds args rule: assemble_arguments.induct)
  case (1 p a argument_type kinds argument_data rest)
  from "1.prems"(1) obtain a1 where
    a1: "(if argument_type = CHR ''R'' then assemble_register a argument_data
            else if argument_type = CHR ''C'' then assemble_constant a argument_data
            else if argument_type = CHR ''L'' then assemble_label p a argument_data
            else Inr a) = Inr a1"
    and rest: "assemble_arguments p a1 kinds rest = Inr a'"
    by (auto split: sum.splits)
  have s1: "first_pass_inv a1 \<and> extends a a1 \<and> offsets_list a1 = offsets_list a"
    using assemble_argument_inv [OF a1 "1.prems"(2)] .
  have s2: "first_pass_inv a' \<and> extends a1 a' \<and> offsets_list a' = offsets_list a1"
    using "1.IH" [OF a1 rest] s1 by blast
  show ?case using s1 s2 extends_trans by auto
qed (simp_all add: extends_refl)

lemma new_instruction_inv:
  assumes "first_pass_inv a" and "set code \<subseteq> bit_chars"
  shows "first_pass_inv (append_bits (a\<lparr>offsets_list := offsets_list a @ [length (bytecode a)]\<rparr>) code)"
    and "extends a (append_bits (a\<lparr>offsets_list := offsets_list a @ [length (bytecode a)]\<rparr>) code)"
proof -
  show "first_pass_inv (append_bits (a\<lparr>offsets_list := offsets_list a @ [length (bytecode a)]\<rparr>) code)"
    using assms by (fastforce simp add: first_pass_inv_def append_bits_def)
  show "extends a (append_bits (a\<lparr>offsets_list := offsets_list a @ [length (bytecode a)]\<rparr>) code)"
    by (simp add: extends_def append_bits_def)
qed

lemma assemble_instruction_inv:
  assumes "assemble_instruction p a instruction = Inr a'" and "first_pass_inv a"
  shows "first_pass_inv a' \<and> extends a a'
         \<and> offsets_list a' = offsets_list a @ [length (bytecode a)]"
proof -
  from assms(1) obtain code kinds where
    op: "map_of Opcodes (fst instruction) = Some (code, kinds)"
    and args: "assemble_arguments p
                 (append_bits (a\<lparr>offsets_list := offsets_list a @ [length (bytecode a)]\<rparr>) code)
                 kinds (snd instruction) = Inr a'"
    by (auto simp add: assemble_instruction_def Let_def split: option.splits)
  note n = new_instruction_inv [OF assms(2) Opcodes_code_bit_chars [OF op]]
  have "first_pass_inv a'
        \<and> extends (append_bits (a\<lparr>offsets_list := offsets_list a @ [length (bytecode a)]\<rparr>) code) a'
        \<and> offsets_list a'
            = offsets_list (append_bits (a\<lparr>offsets_list := offsets_list a @ [length (bytecode a)]\<rparr>) code)"
    using assemble_arguments_inv [OF args n(1)] .
  then show ?thesis using n(2) extends_trans by (auto simp add: append_bits_def)
qed

lemma assemble_instructions_inv:
  assumes "assemble_instructions p a is = Inr a'" and "first_pass_inv a"
  shows "first_pass_inv a' \<and> extends a a'
         \<and> length (offsets_list a') = length (offsets_list a) + length is"
  using assms
proof (induction "is" arbitrary: a)
  case Nil
  then show ?case by (simp add: extends_refl)
next
  case (Cons i "is")
  from Cons.prems(1) obtain a1 where
    a1: "assemble_instruction p a i = Inr a1" and rest: "assemble_instructions p a1 is = Inr a'"
    by (auto split: sum.splits)
  have s1: "first_pass_inv a1 \<and> extends a a1
            \<and> offsets_list a1 = offsets_list a @ [length (bytecode a)]"
    using assemble_instruction_inv [OF a1 Cons.prems(2)] .
  have s2: "first_pass_inv a' \<and> extends a1 a'
            \<and> length (offsets_list a') = length (offsets_list a1) + length is"
    using Cons.IH [OF rest] s1 by blast
  show ?case using s1 s2 extends_trans by auto
qed

lemma assembler_init_inv: "first_pass_inv assembler_init"
  by (simp add: first_pass_inv_def assembler_init_def)

lemma assemble_instructions_append:
  "assemble_instructions p a (xs @ ys) =
     (case assemble_instructions p a xs of
        Inl e \<Rightarrow> Inl e
      | Inr a' \<Rightarrow> assemble_instructions p a' ys)"
  by (induction xs arbitrary: a) (simp_all split: sum.splits)

lemma assemble_arguments_nth:
  assumes "assemble_arguments p a kinds args = Inr a'"
    and "j < length kinds" and "j < length args" and "kinds ! j = CHR ''L''"
  shows "\<exists>a1 a2. assemble_arguments p a (take j kinds) (take j args) = Inr a1
           \<and> assemble_label p a1 (args ! j) = Inr a2
           \<and> assemble_arguments p a2 (drop (Suc j) kinds) (drop (Suc j) args) = Inr a'"
  using assms
proof (induction p a kinds args arbitrary: j rule: assemble_arguments.induct)
  case (1 p a argument_type kinds argument_data rest)
  from "1.prems"(1) obtain a1 where
    a1: "(if argument_type = CHR ''R'' then assemble_register a argument_data
            else if argument_type = CHR ''C'' then assemble_constant a argument_data
            else if argument_type = CHR ''L'' then assemble_label p a argument_data
            else Inr a) = Inr a1"
    and rest: "assemble_arguments p a1 kinds rest = Inr a'"
    by (auto split: sum.splits)
  show ?case
  proof (cases j)
    case 0
    with "1.prems"(4) have "argument_type = CHR ''L''" by simp
    with a1 have "assemble_label p a argument_data = Inr a1" by simp
    with 0 rest show ?thesis by simp
  next
    case (Suc j')
    have "\<exists>b1 b2. assemble_arguments p a1 (take j' kinds) (take j' rest) = Inr b1
           \<and> assemble_label p b1 (rest ! j') = Inr b2
           \<and> assemble_arguments p b2 (drop (Suc j') kinds) (drop (Suc j') rest) = Inr a'"
      using "1.IH" [OF a1 rest, of j'] "1.prems"(2,3,4) Suc by simp
    then show ?thesis using a1 Suc by simp
  qed
qed simp_all

text \<open>The first pass up to an argument of kind \<open>L\<close>, and from there to its end.\<close>

lemma first_pass_at_label:
  assumes run: "assemble_instructions p a (before @ (name, args) # after) = Inr a'"
    and inv: "first_pass_inv a"
    and op: "map_of Opcodes name = Some (code, kinds)"
    and j: "j < length kinds" "j < length args" "kinds ! j = CHR ''L''"
  shows "\<exists>a0 a1 a2.
           assemble_instructions p a before = Inr a0
         \<and> assemble_arguments p
             (append_bits (a0\<lparr>offsets_list := offsets_list a0 @ [length (bytecode a0)]\<rparr>) code)
             (take j kinds) (take j args) = Inr a1
         \<and> assemble_label p a1 (args ! j) = Inr a2
         \<and> first_pass_inv a1 \<and> extends a a1
         \<and> length (offsets_list a1) = length (offsets_list a) + length before + 1
         \<and> extends a2 a' \<and> first_pass_inv a'
         \<and> length (offsets_list a')
             = length (offsets_list a) + length before + 1 + length after"
proof -
  from run obtain a0 where
    a0: "assemble_instructions p a before = Inr a0"
    and r0: "assemble_instructions p a0 ((name, args) # after) = Inr a'"
    by (auto simp add: assemble_instructions_append split: sum.splits)
  from r0 obtain ai where
    ai: "assemble_instruction p a0 (name, args) = Inr ai"
    and r1: "assemble_instructions p ai after = Inr a'"
    by (auto split: sum.splits)
  define b where
    "b = append_bits (a0\<lparr>offsets_list := offsets_list a0 @ [length (bytecode a0)]\<rparr>) code"
  from ai op have args: "assemble_arguments p b kinds args = Inr ai"
    by (simp add: assemble_instruction_def Let_def b_def)
  from assemble_arguments_nth [OF args j] obtain a1 a2 where
    a1: "assemble_arguments p b (take j kinds) (take j args) = Inr a1"
    and a2: "assemble_label p a1 (args ! j) = Inr a2"
    and a3: "assemble_arguments p a2 (drop (Suc j) kinds) (drop (Suc j) args) = Inr ai"
    by blast
  have i0: "first_pass_inv a0 \<and> extends a a0
            \<and> length (offsets_list a0) = length (offsets_list a) + length before"
    using assemble_instructions_inv [OF a0 inv] .
  have ib: "first_pass_inv b" "extends a0 b"
    using new_instruction_inv [OF _ Opcodes_code_bit_chars [OF op], of a0] i0
    by (simp_all add: b_def)
  have lb: "length (offsets_list b) = length (offsets_list a) + length before + 1"
    using i0 by (simp add: b_def append_bits_def)
  have i1: "first_pass_inv a1 \<and> extends b a1 \<and> offsets_list a1 = offsets_list b"
    using assemble_arguments_inv [OF a1 ib(1)] .
  have i2: "first_pass_inv a2 \<and> extends a1 a2 \<and> offsets_list a2 = offsets_list a1"
    using assemble_label_inv [OF a2] i1 by blast
  have i3: "first_pass_inv ai \<and> extends a2 ai \<and> offsets_list ai = offsets_list a2"
    using assemble_arguments_inv [OF a3] i2 by blast
  have i4: "first_pass_inv a' \<and> extends ai a'
            \<and> length (offsets_list a') = length (offsets_list ai) + length after"
    using assemble_instructions_inv [OF r1] i3 by blast
  have e1: "extends a a1" using i0 ib(2) i1 extends_trans by blast
  have e2: "extends a2 a'" using i3 i4 extends_trans by blast
  have l1: "length (offsets_list a1) = length (offsets_list a) + length before + 1"
    using i1 lb by simp
  have l2: "length (offsets_list a')
             = length (offsets_list a) + length before + 1 + length after"
    using i4 i3 i2 i1 lb by simp
  show ?thesis
    using a0 a1 a2 i1 e1 l1 e2 i4 l2 unfolding b_def by blast
qed

subsection \<open>A label behind the last instruction\<close>

lemma store_bits_error: "store_bits bc position bits = Inl e \<Longrightarrow> e = IndexError"
  by (induction bc position bits rule: store_bits.induct) (auto split: if_splits)

lemma apply_patches_loop_index_error:
  assumes "(position, offset) \<in> set ps" and "length (offsets_list a) \<le> offset"
  shows "apply_patches_loop a ps = Inl IndexError"
  using assms
proof (induction ps arbitrary: a)
  case Nil
  then show ?case by simp
next
  case (Cons kv ps)
  obtain k v where kv: "kv = (k, v)" by (cases kv) auto
  show ?case
  proof (cases "v < length (offsets_list a)")
    case False
    then show ?thesis by (simp add: kv)
  next
    case True
    with Cons.prems kv have mem: "(position, offset) \<in> set ps" by auto
    show ?thesis
    proof (cases "store_bits (bytecode a) k (rev (format_b 32 (int (offsets_list a ! v))))")
      case (Inl e)
      then have "e = IndexError" by (rule store_bits_error)
      with Inl True show ?thesis by (simp add: kv)
    next
      case (Inr bc)
      have "apply_patches_loop (a\<lparr>bytecode := bc\<rparr>) ps = Inl IndexError"
        using Cons.IH [OF mem, of "a\<lparr>bytecode := bc\<rparr>"] Cons.prems(2) by simp
      with Inr True show ?thesis by (simp add: kv)
    qed
  qed
qed

lemma extends_patch:
  "extends a a' \<Longrightarrow> kv \<in> set (offset_patches a) \<Longrightarrow> kv \<in> set (offset_patches a')"
  by (auto simp add: extends_def)

lemma label_after_last_instruction_emit:
  assumes lbl: "map_of (code_labels p) l = Some (length (code_section p))"
    and ref: "references_label p l"
    and run: "assemble_instructions p assembler_init (code_section p) = Inr a"
  shows "emit p = Inl IndexError"
proof -
  from ref obtain name args code kinds where
    mem: "(name, args) \<in> set (code_section p)"
    and op: "map_of Opcodes name = Some (code, kinds)"
    and z: "(CHR ''L'', StrArg l) \<in> set (zip kinds args)"
    by (auto simp add: references_label_def list_ex_iff split: option.splits)
  from mem obtain before after where
    cs: "code_section p = before @ (name, args) # after"
    by (auto dest: split_list)
  from z obtain j where
    j: "j < length kinds" "j < length args" "kinds ! j = CHR ''L''" and aj: "args ! j = StrArg l"
    by (auto simp add: in_set_zip)
  from first_pass_at_label [OF run [unfolded cs] assembler_init_inv op j]
  obtain a1 a2 where
    a2: "assemble_label p a1 (args ! j) = Inr a2"
    and i1: "first_pass_inv a1"
    and l1: "length (offsets_list a1) = length (offsets_list assembler_init) + length before + 1"
    and e2: "extends a2 a"
    and l2: "length (offsets_list a)
               = length (offsets_list assembler_init) + length before + 1 + length after"
    by blast
  have len1: "length (offsets_list a1) \<le> length (code_section p)"
    using l1 by (simp add: cs assembler_init_def)
  have len: "length (offsets_list a) = length (code_section p)"
    using l2 by (simp add: cs assembler_init_def)
  have "(length (bytecode a1), length (code_section p)) \<in> set (offset_patches a2)"
    using a2
  proof (cases rule: assemble_label_cases)
    case (backward s idx)
    with aj lbl len1 show ?thesis by simp
  next
    case (forward s idx)
    with aj lbl have idx: "idx = length (code_section p)" by simp
    show ?thesis
      using forward(4) forward_patch_inv(3) [OF i1, of idx] idx
      by (simp add: append_bits_def)
  qed
  then have "(length (bytecode a1), length (code_section p)) \<in> set (offset_patches a)"
    using extends_patch [OF e2] by blast
  then have "apply_patches a = Inl IndexError"
    unfolding apply_patches_def
    by (rule apply_patches_loop_index_error) (simp add: len)
  with run show ?thesis by (simp add: emit_def)
qed

text \<open>
  Claim C10, as stated: if a source defines a code label after the last instruction
  and some argument of kind \<open>L\<close> references it, the patch step indexes the list of
  instruction offsets out of range, and the run ends with an indexing error that is
  neither a parse error (exit code 2) nor an assembler error (exit code 3).

  The patch step is reached only when the first pass raises nothing. In the source
  below the label \<open>end\<close> is defined after the last instruction and referenced, but
  the reference to the undefined label \<open>nowhere\<close> comes first: \<open>build\<close> raises
  \<open>Assembler.Error\<close> in the first pass, and the run ends with exit code 3.
\<close>

theorem label_after_last_instruction_exit_3:
  "analyse [''.dataSize 0'', ''.code'', ''jump nowhere'', ''jump end'', ''hlt'', ''end:'']
     = (None,
        \<lparr>parse_mode = Some Code, data_size = Some 0, data_labels = [], data_section = [],
         code_labels = [(''end'', 3)],
         code_section = [(''jump'', [StrArg ''nowhere'']), (''jump'', [StrArg ''end'']),
                         (''hlt'', [])],
         last_parsed_line = ''end:'', last_parsed_line_no = 6\<rparr>)
   \<and> main [''.dataSize 0'', ''.code'', ''jump nowhere'', ''jump end'', ''hlt'', ''end:'']
     = \<lparr>status = Exit 3, stdout = [''Assembler error: Undefined code label nowhere''],
        output_file = None\<rparr>"
  by code_simp

text \<open>
  Claim C10, amended: if a source is parsed without an exception, defines a code
  label after the last instruction (the index recorded for it is the final length of
  \<open>code_section\<close>), some argument of kind \<open>L\<close> references that label, and the first
  pass of \<open>build\<close> over the instructions raises nothing, then the patch step indexes
  the list of instruction offsets out of range: the run ends with an \<open>IndexError\<close>
  that the driver does not catch, with neither exit code 2 nor exit code 3, and the
  output file is not opened.
\<close>

theorem label_after_last_instruction:
  assumes "analyse input_lines = (None, p)"
    and "map_of (code_labels p) l = Some (length (code_section p))"
    and "references_label p l"
    and "assemble_instructions p assembler_init (code_section p) = Inr a"
  shows "main input_lines
           = \<lparr>status = Uncaught IndexError, stdout = [], output_file = None\<rparr>"
proof -
  have "emit p = Inl IndexError"
    using label_after_last_instruction_emit [OF assms(2,3,4)] .
  then have "build p = (Some IndexError, [], None)" by (simp add: build_def)
  with assms(1) show ?thesis by (simp add: main_def)
qed

theorem label_after_last_instruction_witness:
  "analyse [''.dataSize 0'', ''.code'', ''jump end'', ''hlt'', ''end:'']
     = (None, snd (analyse [''.dataSize 0'', ''.code'', ''jump end'', ''hlt'', ''end:'']))
   \<and> map_of (code_labels (snd (analyse [''.dataSize 0'', ''.code'', ''jump end'', ''hlt'', ''end:''])))
         ''end''
     = Some (length (code_section
                (snd (analyse [''.dataSize 0'', ''.code'', ''jump end'', ''hlt'', ''end:'']))))
   \<and> references_label (snd (analyse [''.dataSize 0'', ''.code'', ''jump end'', ''hlt'', ''end:'']))
         ''end''
   \<and> assemble_instructions
         (snd (analyse [''.dataSize 0'', ''.code'', ''jump end'', ''hlt'', ''end:'']))
         assembler_init
         (code_section (snd (analyse [''.dataSize 0'', ''.code'', ''jump end'', ''hlt'', ''end:''])))
     = Inr \<lparr>bytecode = ''011010000000000000000000000000000000010110'',
            offsets_list = [0, 37], offset_patches = [(5, 2)]\<rparr>
   \<and> main [''.dataSize 0'', ''.code'', ''jump end'', ''hlt'', ''end:'']
     = \<lparr>status = Uncaught IndexError, stdout = [], output_file = None\<rparr>"
proof -
  have a: "analyse [''.dataSize 0'', ''.code'', ''jump end'', ''hlt'', ''end:'']
     = (None, snd (analyse [''.dataSize 0'', ''.code'', ''jump end'', ''hlt'', ''end:'']))"
    by code_simp
  have l: "map_of (code_labels (snd (analyse [''.dataSize 0'', ''.code'', ''jump end'', ''hlt'', ''end:''])))
         ''end''
     = Some (length (code_section
                (snd (analyse [''.dataSize 0'', ''.code'', ''jump end'', ''hlt'', ''end:'']))))"
    by code_simp
  have r: "references_label
             (snd (analyse [''.dataSize 0'', ''.code'', ''jump end'', ''hlt'', ''end:''])) ''end''"
    by code_simp
  have f: "assemble_instructions
         (snd (analyse [''.dataSize 0'', ''.code'', ''jump end'', ''hlt'', ''end:'']))
         assembler_init
         (code_section (snd (analyse [''.dataSize 0'', ''.code'', ''jump end'', ''hlt'', ''end:''])))
     = Inr \<lparr>bytecode = ''011010000000000000000000000000000000010110'',
            offsets_list = [0, 37], offset_patches = [(5, 2)]\<rparr>"
    by code_simp
  show ?thesis
    using a l r f label_after_last_instruction [OF a l r f] by blast
qed

subsection \<open>Bytes of the code image\<close>

lemma lsb_value_append: "lsb_value (xs @ ys) = lsb_value xs + 2 ^ length xs * lsb_value ys"
  by (induction xs) (simp_all add: algebra_simps)

lemma msb_value_Cons: "msb_value (c # s) = bit_val c * 2 ^ length s + msb_value s"
  by (simp add: msb_value_def lsb_value_append)

lemma digits_loop_bits:
  assumes "set s \<subseteq> bit_chars" and "digits_loop 2 pu acc s = Some n"
  shows "n = acc * 2 ^ length s + msb_value s"
  using assms
proof (induction s arbitrary: pu acc)
  case Nil
  then show ?case by (simp add: msb_value_def split: if_splits)
next
  case (Cons c s)
  have s: "set s \<subseteq> bit_chars" using Cons.prems(1) by simp
  have "c \<in> bit_chars" using Cons.prems(1) by simp
  then consider (zero) "c = CHR ''0''" | (one) "c = CHR ''1''" | (minus) "c = CHR ''-''"
    by (auto simp add: bit_chars_def)
  then show ?case
  proof cases
    case zero
    then have "digits_loop 2 False (acc * 2 + 0) s = Some n"
      using Cons.prems(2) by (simp add: digit_val_def)
    from Cons.IH [OF s this] show ?thesis
      using zero by (simp add: msb_value_Cons bit_val_def algebra_simps)
  next
    case one
    then have "digits_loop 2 False (acc * 2 + 1) s = Some n"
      using Cons.prems(2) by (simp add: digit_val_def)
    from Cons.IH [OF s this] show ?thesis
      using one by (simp add: msb_value_Cons bit_val_def algebra_simps)
  next
    case minus
    then show ?thesis using Cons.prems(2) by (simp add: digit_val_def)
  qed
qed

lemma bit_chars_not_space: "c \<in> bit_chars \<Longrightarrow> \<not> is_space c"
  by (auto simp add: bit_chars_def is_space_def)

lemma has_prefix_bit_chars:
  assumes "set s \<subseteq> bit_chars"
  shows "\<not> has_prefix s (CHR ''b'') (CHR ''B'')"
proof (cases s)
  case Nil
  then show ?thesis by (simp add: has_prefix_def)
next
  case (Cons c0 t)
  show ?thesis
  proof (cases t)
    case Nil
    with Cons show ?thesis by (simp add: has_prefix_def)
  next
    case (Cons c1 u)
    have "c1 \<in> bit_chars" using assms \<open>s = c0 # t\<close> Cons by simp
    then have "c1 \<noteq> CHR ''b'' \<and> c1 \<noteq> CHR ''B''" by (auto simp add: bit_chars_def)
    with \<open>s = c0 # t\<close> Cons show ?thesis by (simp add: has_prefix_def)
  qed
qed

lemma py_int_2_empty: "py_int 2 [] = None"
  by code_simp

lemma py_int_2_minus:
  assumes "strip s = s" and "s \<noteq> []" and "hd s = CHR ''-''"
    and "\<not> has_prefix (tl s) (CHR ''b'') (CHR ''B'')"
  shows "py_int 2 s =
      (if tl s = [] \<or> hd (tl s) = CHR ''_'' then None
       else case digits_loop 2 False 0 (tl s) of
              None \<Rightarrow> None
            | Some n \<Rightarrow> Some (- int n))"
  using assms by (simp add: py_int_def Let_def split: option.splits)

lemma py_int_2_plain:
  assumes "strip s = s" and "s \<noteq> []" and "hd s \<noteq> CHR ''-''" and "hd s \<noteq> CHR ''+''"
    and "\<not> has_prefix s (CHR ''b'') (CHR ''B'')"
  shows "py_int 2 s =
      (if hd s = CHR ''_'' then None
       else case digits_loop 2 False 0 s of
              None \<Rightarrow> None
            | Some n \<Rightarrow> Some (int n))"
  using assms by (simp add: py_int_def Let_def split: option.splits)

lemma py_int_2_bits:
  assumes chars: "set s \<subseteq> bit_chars" and v: "py_int 2 s = Some v" and nonneg: "0 \<le> v"
  shows "nat v = msb_value s"
proof -
  have ne: "s \<noteq> []" using v py_int_2_empty by auto
  then have "hd s \<in> bit_chars" "last s \<in> bit_chars" using chars by auto
  then have st: "strip s = s"
    using strip_no_space [OF ne] bit_chars_not_space by blast
  have plus: "hd s \<noteq> CHR ''+''" using \<open>hd s \<in> bit_chars\<close> by (auto simp add: bit_chars_def)
  show ?thesis
  proof (cases "hd s = CHR ''-''")
    case True
    have c2: "set (tl s) \<subseteq> bit_chars" using chars ne by (cases s) auto
    have np: "\<not> has_prefix (tl s) (CHR ''b'') (CHR ''B'')"
      using c2 by (rule has_prefix_bit_chars)
    from v py_int_2_minus [OF st ne True np] obtain n where
      n: "digits_loop 2 False 0 (tl s) = Some n" and vn: "v = - int n"
      by (auto split: if_splits option.splits)
    have nv: "n = msb_value (tl s)" using digits_loop_bits [OF c2 n] by simp
    from vn nonneg have "n = 0" by simp
    moreover have "s = CHR ''-'' # tl s" using True ne by (cases s) simp_all
    then have "msb_value s = msb_value (tl s)"
      using msb_value_Cons [of "CHR ''-''" "tl s"] by (simp add: bit_val_def)
    ultimately show ?thesis using nv vn by simp
  next
    case False
    have np: "\<not> has_prefix s (CHR ''b'') (CHR ''B'')"
      using chars by (rule has_prefix_bit_chars)
    from v py_int_2_plain [OF st ne False plus np] obtain n where
      n: "digits_loop 2 False 0 s = Some n" and vn: "v = int n"
      by (auto split: if_splits option.splits)
    have nv: "n = msb_value s" using digits_loop_bits [OF chars n] by simp
    then show ?thesis using vn by simp
  qed
qed

lemma pack_chunk_bits:
  assumes "set c \<subseteq> bit_chars" and "pack_chunk c = Inr bs"
  shows "bs = [msb_value c]"
proof -
  from assms(2) obtain v where v: "py_int 2 c = Some v" and p: "pack_B v = Inr bs"
    by (auto simp add: pack_chunk_def split: option.splits)
  from p have "0 \<le> v" and "bs = [nat v]" by (auto simp add: pack_B_def split: if_splits)
  then show ?thesis using py_int_2_bits [OF assms(1) v] by simp
qed

lemma store_bits_bit_chars:
  assumes "store_bits bc position bits = Inr bc'"
    and "set bc \<subseteq> bit_chars" and "set bits \<subseteq> bit_chars"
  shows "set bc' \<subseteq> bit_chars"
  using assms
proof (induction bc position bits rule: store_bits.induct)
  case (1 bc position)
  then show ?case by simp
next
  case (2 bc position b patched)
  from "2.prems"(1) have lt: "position < length bc"
    and r: "store_bits (bc[position := b]) (Suc position) patched = Inr bc'"
    by (auto split: if_splits)
  have "set (bc[position := b]) \<subseteq> bit_chars"
    using "2.prems"(2,3) by (auto dest: set_update_subset_insert [THEN subsetD])
  then show ?case using "2.IH" [OF lt r] "2.prems"(3) by simp
qed

lemma apply_patches_loop_bit_chars:
  assumes "apply_patches_loop a ps = Inr a'" and "set (bytecode a) \<subseteq> bit_chars"
  shows "set (bytecode a') \<subseteq> bit_chars"
  using assms
proof (induction ps arbitrary: a)
  case Nil
  then show ?case by simp
next
  case (Cons kv ps)
  obtain k v where kv: "kv = (k, v)" by (cases kv) auto
  from Cons.prems(1) obtain bc where
    bc: "store_bits (bytecode a) k (rev (format_b 32 (int (offsets_list a ! v)))) = Inr bc"
    and r: "apply_patches_loop (a\<lparr>bytecode := bc\<rparr>) ps = Inr a'"
    by (auto simp add: kv split: if_splits sum.splits)
  have "set (rev (format_b 32 (int (offsets_list a ! v)))) \<subseteq> bit_chars"
    using format_b_bit_chars by simp
  then have "set bc \<subseteq> bit_chars" using store_bits_bit_chars [OF bc Cons.prems(2)] by simp
  then show ?case using Cons.IH [OF r] by simp
qed

lemma emit_bit_chars:
  assumes "emit p = Inr a"
  shows "set (bytecode a) \<subseteq> bit_chars"
proof -
  from assms obtain a1 where
    a1: "assemble_instructions p assembler_init (code_section p) = Inr a1"
    and a: "apply_patches_loop a1 (offset_patches a1) = Inr a"
    by (auto simp add: emit_def apply_patches_def split: sum.splits)
  have "set (bytecode a1) \<subseteq> bit_chars"
    using assemble_instructions_inv [OF a1 assembler_init_inv]
    by (simp add: first_pass_inv_def)
  then show ?thesis using apply_patches_loop_bit_chars [OF a] by simp
qed

lemma round_up_8:
  fixes n :: nat
  shows "8 * ((n + 7) div 8) = (if n mod 8 = 0 then n else n + (8 - n mod 8))"
proof -
  define q where "q = n div 8"
  define r where "r = n mod 8"
  have n: "n = 8 * q + r" and r: "r < 8" by (simp_all add: q_def r_def)
  have "(8 * q + r + 7) div 8 = q + (r + 7) div 8" by simp
  moreover have "(r + 7) div 8 = (if r = 0 then 0 else 1)"
  proof (cases r)
    case 0
    then show ?thesis by simp
  next
    case (Suc k)
    with r have k: "k < 8" by simp
    have "(r + 7) div 8 = (k + 8) div 8" using Suc by simp
    also have "\<dots> = k div 8 + 1" by simp
    also have "\<dots> = 1" using k by simp
    finally show ?thesis using Suc by simp
  qed
  ultimately have "8 * ((n + 7) div 8) = (if r = 0 then 8 * q else 8 * q + 8)"
    unfolding n by simp
  moreover have "(if n mod 8 = 0 then n else n + (8 - n mod 8))
                   = (if r = 0 then 8 * q else 8 * q + 8)"
    using n r by (simp add: r_def [symmetric])
  ultimately show ?thesis by simp
qed

lemma length_pad_bytecode: "length (pad_bytecode bc) = 8 * ((length bc + 7) div 8)"
  unfolding round_up_8 by (simp add: pad_bytecode_def)

lemma pad_bytecode_bit_chars: "set bc \<subseteq> bit_chars \<Longrightarrow> set (pad_bytecode bc) \<subseteq> bit_chars"
  by (auto simp add: pad_bytecode_def bit_chars_def)

lemma chunks8_pad_bytecode:
  "chunks8 (pad_bytecode bc)
     = map (\<lambda>k. take 8 (drop (8 * k) (pad_bytecode bc))) [0..<(length bc + 7) div 8]"
proof -
  have "(length (pad_bytecode bc) + 7) div 8 = (length bc + 7) div 8"
    unfolding length_pad_bytecode by simp
  then show ?thesis by (simp add: chunks8_def)
qed

lemma write_all_ok:
  assumes "write_all out ws = (None, bs)"
  shows "(\<forall>w \<in> set ws. \<exists>x. w = Inr x) \<and> bs = out @ concat (map projr ws)"
  using assms
proof (induction out ws rule: write_all.induct)
  case (1 out)
  then show ?case by simp
next
  case (2 out e rest)
  then show ?case by simp
next
  case (3 out x rest)
  then show ?case by simp
qed

lemma concat_pack_chunks:
  assumes "\<forall>w \<in> set (map pack_chunk cs). \<exists>x. w = Inr x"
    and "\<forall>c \<in> set cs. set c \<subseteq> bit_chars"
  shows "concat (map projr (map pack_chunk cs)) = map msb_value cs"
  using assms
proof (induction cs)
  case Nil
  then show ?case by simp
next
  case (Cons c cs)
  from Cons.prems(1) obtain x where x: "pack_chunk c = Inr x" by auto
  have "x = [msb_value c]" using pack_chunk_bits [OF _ x] Cons.prems(2) by simp
  then show ?case using Cons x by simp
qed

lemma concat_pack_B:
  assumes "\<forall>w \<in> set (map pack_B vs). \<exists>x. w = Inr x"
  shows "concat (map projr (map pack_B vs)) = map nat vs \<and> list_all (\<lambda>v. 0 \<le> v \<and> v \<le> 255) vs"
  using assms
proof (induction vs)
  case Nil
  then show ?case by simp
next
  case (Cons v vs)
  from Cons.prems obtain x where x: "pack_B v = Inr x" by auto
  then have "0 \<le> v \<and> v \<le> 255 \<and> x = [nat v]" by (auto simp add: pack_B_def split: if_splits)
  then show ?case using Cons x by simp
qed

lemma pack_I_le32:
  assumes "pack_I v = Inr bs"
  shows "0 \<le> v \<and> v < 2 ^ 32 \<and> bs = le32 (nat v)"
proof -
  from assms have r: "0 \<le> v" "v < 4294967296"
    and bs: "bs = [nat (v mod 256), nat (v div 256 mod 256), nat (v div 65536 mod 256),
                   nat (v div 16777216 mod 256)]"
    by (auto simp add: pack_I_def split: if_splits)
  have "nat (v mod 256) = nat v mod 256" using r(1) by (simp add: nat_mod_distrib)
  moreover have "nat (v div 256 mod 256) = nat v div 256 mod 256"
    using r(1) by (simp add: nat_mod_distrib nat_div_distrib)
  moreover have "nat (v div 65536 mod 256) = nat v div 65536 mod 256"
    using r(1) by (simp add: nat_mod_distrib nat_div_distrib)
  moreover have "nat (v div 16777216 mod 256) = nat v div 16777216 mod 256"
    using r(1) by (simp add: nat_mod_distrib nat_div_distrib)
  ultimately show ?thesis using r bs by (simp add: le32_def)
qed

lemma reconcile_max:
  assumes "reconcile p = Inr (printed, new_size)"
  shows "\<exists>declared. data_size p = Some declared
           \<and> new_size = max declared (int (length (data_section p)))"
  using assms by (auto simp add: reconcile_def Let_def split: option.splits if_splits)

lemma main_exit_0:
  assumes "main input_lines = \<lparr>status = Exit 0, stdout = out, output_file = f\<rparr>"
  shows "\<exists>p printed. analyse input_lines = (None, p) \<and> build p = (None, printed, f)"
proof -
  obtain eo p where an: "analyse input_lines = (eo, p)" by (cases "analyse input_lines") auto
  show ?thesis
  proof (cases eo)
    case (Some e)
    with assms an show ?thesis by (cases e) (simp_all add: main_def)
  next
    case None
    obtain bo printed f' where b: "build p = (bo, printed, f')"
      by (cases "build p") auto
    show ?thesis
    proof (cases bo)
      case (Some e)
      with assms an None b show ?thesis by (cases e) (simp_all add: main_def)
    next
      case bNone: None
      with assms an None b have "f' = f" by (simp add: main_def)
      with an None b bNone show ?thesis by simp
    qed
  qed
qed

text \<open>
  Claim C8: on every successful run the output file is, in order, the 8 bytes
  \<open>ESET-VM2\<close>, the number of code bytes (the number of emitted bits divided by 8,
  rounded up), the data size and the number of data bytes, each as 32 bits
  little-endian, then the code bytes, each packing 8 successive characters of the
  padded bit buffer with the first one most significant, then the data bytes.
\<close>

theorem successful_run_output_file:
  assumes "main input_lines = \<lparr>status = Exit 0, stdout = out, output_file = f\<rparr>"
  shows "\<exists>p a declared.
           analyse input_lines = (None, p) \<and> emit p = Inr a \<and> data_size p = Some declared
         \<and> f = Some (magic
                     @ le32 ((length (bytecode a) + 7) div 8)
                     @ le32 (nat (max declared (int (length (data_section p)))))
                     @ le32 (length (data_section p))
                     @ map (\<lambda>k. msb_value (take 8 (drop (8 * k) (pad_bytecode (bytecode a)))))
                         [0..<(length (bytecode a) + 7) div 8]
                     @ map nat (data_section p))
         \<and> length (pad_bytecode (bytecode a)) = 8 * ((length (bytecode a) + 7) div 8)
         \<and> (length (bytecode a) + 7) div 8 < 2 ^ 32
         \<and> 0 \<le> max declared (int (length (data_section p)))
         \<and> max declared (int (length (data_section p))) < 2 ^ 32
         \<and> list_all (\<lambda>v. 0 \<le> v \<and> v \<le> 255) (data_section p)"
proof -
  from main_exit_0 [OF assms] obtain p printed where
    an: "analyse input_lines = (None, p)" and b: "build p = (None, printed, f)"
    by blast
  from b obtain a where e: "emit p = Inr a"
    by (cases "emit p") (simp_all add: build_def)
  from b e obtain pr new_size where r: "reconcile p = Inr (pr, new_size)"
    by (cases "reconcile p") (auto simp add: build_def)
  define bc where "bc = pad_bytecode (bytecode a)"
  define n where "n = (length (bytecode a) + 7) div 8"
  define ws where
    "ws = Inr magic # pack_I (int (length bc div 8)) # pack_I new_size
          # pack_I (int (length (data_section p)))
          # map pack_chunk (chunks8 bc) @ map pack_B (data_section p)"
  have "build p = (fst (write_all [] ws), pr, Some (snd (write_all [] ws)))"
    unfolding build_def ws_def bc_def using e r by (simp add: Let_def)
  with b have w: "fst (write_all [] ws) = None" and f: "f = Some (snd (write_all [] ws))"
    by simp_all
  from w have "write_all [] ws = (None, snd (write_all [] ws))"
    by (cases "write_all [] ws") simp
  from write_all_ok [OF this] have
    ok: "\<forall>w \<in> set ws. \<exists>x. w = Inr x"
    and bs: "snd (write_all [] ws) = concat (map projr ws)"
    by simp_all
  have len: "length bc = 8 * n" unfolding bc_def n_def by (rule length_pad_bytecode)
  then have div: "length bc div 8 = n" by simp
  have "pack_I (int n) \<in> set ws" unfolding ws_def div by simp
  with ok obtain b1 where b1: "pack_I (int n) = Inr b1" by blast
  have "pack_I new_size \<in> set ws" unfolding ws_def by simp
  with ok obtain b2 where b2: "pack_I new_size = Inr b2" by blast
  have "pack_I (int (length (data_section p))) \<in> set ws" unfolding ws_def by simp
  with ok obtain b3 where b3: "pack_I (int (length (data_section p))) = Inr b3" by blast
  have "set (map pack_chunk (chunks8 bc)) \<subseteq> set ws" unfolding ws_def by auto
  with ok have okc: "\<forall>w \<in> set (map pack_chunk (chunks8 bc)). \<exists>x. w = Inr x" by blast
  have "set (map pack_B (data_section p)) \<subseteq> set ws" unfolding ws_def by auto
  with ok have okd: "\<forall>w \<in> set (map pack_B (data_section p)). \<exists>x. w = Inr x" by blast
  have chars: "set bc \<subseteq> bit_chars"
    unfolding bc_def using emit_bit_chars [OF e] by (rule pad_bytecode_bit_chars)
  have ch: "chunks8 bc = map (\<lambda>k. take 8 (drop (8 * k) bc)) [0..<n]"
    unfolding bc_def n_def by (rule chunks8_pad_bytecode)
  have "\<forall>c \<in> set (chunks8 bc). set c \<subseteq> bit_chars"
  proof
    fix c
    assume "c \<in> set (chunks8 bc)"
    then obtain k where "c = take 8 (drop (8 * k) bc)" unfolding ch by auto
    then have "set c \<subseteq> set bc"
      using set_take_subset [of 8 "drop (8 * k) bc"] set_drop_subset [of "8 * k" bc] by blast
    with chars show "set c \<subseteq> bit_chars" by blast
  qed
  from concat_pack_chunks [OF okc this]
  have code: "concat (map projr (map pack_chunk (chunks8 bc)))
                = map (\<lambda>k. msb_value (take 8 (drop (8 * k) bc))) [0..<n]"
    unfolding ch by (simp add: comp_def)
  from concat_pack_B [OF okd]
  have data: "concat (map projr (map pack_B (data_section p))) = map nat (data_section p)"
    and range: "list_all (\<lambda>v. 0 \<le> v \<and> v \<le> 255) (data_section p)"
    by simp_all
  from reconcile_max [OF r] obtain declared where
    d: "data_size p = Some declared"
    and m: "new_size = max declared (int (length (data_section p)))"
    by blast
  have l1: "0 \<le> int n \<and> int n < 2 ^ 32 \<and> b1 = le32 (nat (int n))" using pack_I_le32 [OF b1] .
  have l2: "0 \<le> new_size \<and> new_size < 2 ^ 32 \<and> b2 = le32 (nat new_size)"
    using pack_I_le32 [OF b2] .
  have l3: "b3 = le32 (length (data_section p))" using pack_I_le32 [OF b3] by simp
  have "concat (map projr ws)
          = magic @ b1 @ b2 @ b3 @ concat (map projr (map pack_chunk (chunks8 bc)))
            @ concat (map projr (map pack_B (data_section p)))"
    unfolding ws_def div using b1 b2 b3 by simp
  then have fl: "f = Some (magic @ le32 n @ le32 (nat new_size)
                      @ le32 (length (data_section p))
                      @ map (\<lambda>k. msb_value (take 8 (drop (8 * k) bc))) [0..<n]
                      @ map nat (data_section p))"
    using f bs code data l1 l2 l3 by simp
  have "int n < int (2 ^ 32)" using l1 by simp
  then have nlt: "n < 2 ^ 32" by (simp only: of_nat_less_iff)
  show ?thesis
  proof (intro exI conjI)
    show "analyse input_lines = (None, p)" by (rule an)
    show "emit p = Inr a" by (rule e)
    show "data_size p = Some declared" by (rule d)
    show "f = Some (magic
                     @ le32 ((length (bytecode a) + 7) div 8)
                     @ le32 (nat (max declared (int (length (data_section p)))))
                     @ le32 (length (data_section p))
                     @ map (\<lambda>k. msb_value (take 8 (drop (8 * k) (pad_bytecode (bytecode a)))))
                         [0..<(length (bytecode a) + 7) div 8]
                     @ map nat (data_section p))"
      using fl unfolding m bc_def n_def .
    show "length (pad_bytecode (bytecode a)) = 8 * ((length (bytecode a) + 7) div 8)"
      by (rule length_pad_bytecode)
    show "(length (bytecode a) + 7) div 8 < 2 ^ 32" using nlt unfolding n_def .
    show "0 \<le> max declared (int (length (data_section p)))" using l2 unfolding m by simp
    show "max declared (int (length (data_section p))) < 2 ^ 32" using l2 unfolding m by simp
    show "list_all (\<lambda>v. 0 \<le> v \<and> v \<le> 255) (data_section p)" by (rule range)
  qed
qed

theorem successful_run_output_file_witness:
  "main [''.dataSize 2'', ''.data'', ''DE AD BE EF'', ''.code'', ''mov r1, r2'', ''hlt'']
     = \<lparr>status = Exit 0,
        stdout = [''Warning: bad .dataSize, was 2 but used 4, expanding'', ''All ok''],
        output_file = Some [69, 83, 69, 84, 45, 86, 77, 50, 3, 0, 0, 0, 4, 0, 0, 0, 4, 0, 0, 0,
                            8, 37, 128, 222, 173, 190, 239]\<rparr>
   \<and> (\<exists>p a declared.
           analyse [''.dataSize 2'', ''.data'', ''DE AD BE EF'', ''.code'', ''mov r1, r2'', ''hlt'']
             = (None, p)
         \<and> emit p = Inr a \<and> data_size p = Some declared
         \<and> Some [69, 83, 69, 84, 45, 86, 77, 50, 3, 0, 0, 0, 4, 0, 0, 0, 4, 0, 0, 0,
                  8, 37, 128, 222, 173, 190, 239]
             = Some (magic
                     @ le32 ((length (bytecode a) + 7) div 8)
                     @ le32 (nat (max declared (int (length (data_section p)))))
                     @ le32 (length (data_section p))
                     @ map (\<lambda>k. msb_value (take 8 (drop (8 * k) (pad_bytecode (bytecode a)))))
                         [0..<(length (bytecode a) + 7) div 8]
                     @ map nat (data_section p))
         \<and> length (pad_bytecode (bytecode a)) = 8 * ((length (bytecode a) + 7) div 8)
         \<and> (length (bytecode a) + 7) div 8 < 2 ^ 32
         \<and> 0 \<le> max declared (int (length (data_section p)))
         \<and> max declared (int (length (data_section p))) < 2 ^ 32
         \<and> list_all (\<lambda>v. 0 \<le> v \<and> v \<le> 255) (data_section p))"
proof -
  have h: "main [''.dataSize 2'', ''.data'', ''DE AD BE EF'', ''.code'', ''mov r1, r2'', ''hlt'']
     = \<lparr>status = Exit 0,
        stdout = [''Warning: bad .dataSize, was 2 but used 4, expanding'', ''All ok''],
        output_file = Some [69, 83, 69, 84, 45, 86, 77, 50, 3, 0, 0, 0, 4, 0, 0, 0, 4, 0, 0, 0,
                            8, 37, 128, 222, 173, 190, 239]\<rparr>"
    by code_simp
  show ?thesis
    using h successful_run_output_file [OF h] by blast
qed

end
